theory Spec2Isabelle
  imports
    Main
    "HOL-Library.Product_Lexorder"
    "HOL-Library.List_Lexorder"
begin

section \<open>Strings and errors\<close>

text \<open>
  A Python \<^verbatim>\<open>str\<close> is a sequence of Unicode code points, and \<^verbatim>\<open>len\<close>, slicing and
  comparison work on code points.  A string is therefore modelled as the list of its code
  points; \<open>ustr\<close> embeds an ASCII literal.
\<close>

type_synonym pystr = "nat list"

definition ustr :: "string \<Rightarrow> pystr" where
  "ustr s = map of_char s"

datatype error =
    IndexError
  | ValueError pystr
  | KeyError pystr
  | ParseError
  | FileNotFoundError pystr
  | BadZipFile
  | UnicodeDecodeError

section \<open>The sequence matcher (\<^verbatim>\<open>difflib.SequenceMatcher\<close>)\<close>

text \<open>
  \<^verbatim>\<open>_align_logs\<close> calls \<^verbatim>\<open>difflib.SequenceMatcher(a=stg_lines, b=prd_lines, autojunk=False)\<close>
  and walks \<^verbatim>\<open>get_opcodes()\<close>.  The matcher belongs to the Python standard library; it is
  transcribed here from CPython's \<^verbatim>\<open>Lib/difflib.py\<close>, method by method, for the
  configuration the program uses: \<^verbatim>\<open>isjunk=None\<close> and \<^verbatim>\<open>autojunk=False\<close>, so that the junk
  set and the popular set are empty and nothing is purged from \<^verbatim>\<open>b2j\<close>.
\<close>

text \<open>\<^verbatim>\<open>__chain_b\<close>: for every element of \<open>b\<close>, the ascending list of its positions.\<close>

definition chain_b :: "'a list \<Rightarrow> ('a \<rightharpoonup> nat list)" where
  "chain_b b =
     foldl (\<lambda>b2j (i, elt). b2j(elt \<mapsto> (case b2j elt of None \<Rightarrow> [] | Some indices \<Rightarrow> indices) @ [i]))
       Map.empty (enumerate 0 b)"

text \<open>\<^verbatim>\<open>self.bjunk.__contains__\<close> for the empty junk set.\<close>

definition isbjunk :: "'a \<Rightarrow> bool" where
  "isbjunk x = False"

text \<open>
  \<^verbatim>\<open>j2lenget(j-1, 0)\<close>.  Indices are natural numbers here; the key \<open>-1\<close> that Python looks
  up for \<open>j = 0\<close> is never in the dictionary, so the default is returned.
\<close>

definition j2lenget :: "(nat \<rightharpoonup> nat) \<Rightarrow> nat \<Rightarrow> nat" where
  "j2lenget j2len j = (if j = 0 then 0 else case j2len (j - 1) of None \<Rightarrow> 0 | Some k \<Rightarrow> k)"

text \<open>
  The inner loop of \<^verbatim>\<open>find_longest_match\<close> over the positions \<open>j\<close> of \<open>a[i]\<close> in \<open>b\<close>, with its
  \<^verbatim>\<open>continue\<close> and \<^verbatim>\<open>break\<close>.  The state is \<open>(newj2len, besti, bestj, bestsize)\<close>.  The new
  \<open>besti\<close> is Python's \<open>i-k+1\<close>; \<open>k\<close> never exceeds \<open>i+1\<close> (lemma \<open>flm_inner_inv\<close>), so the
  subtraction does not truncate.
\<close>

fun flm_inner ::
  "nat \<Rightarrow> nat \<Rightarrow> nat \<Rightarrow> (nat \<rightharpoonup> nat) \<Rightarrow> nat list \<Rightarrow>
   (nat \<rightharpoonup> nat) \<times> nat \<times> nat \<times> nat \<Rightarrow> (nat \<rightharpoonup> nat) \<times> nat \<times> nat \<times> nat" where
  "flm_inner blo bhi i j2len [] st = st"
| "flm_inner blo bhi i j2len (j # js) (newj2len, besti, bestj, bestsize) =
     (if j < blo then flm_inner blo bhi i j2len js (newj2len, besti, bestj, bestsize)
      else if j \<ge> bhi then (newj2len, besti, bestj, bestsize)
      else
        let k = j2lenget j2len j + 1 in
        if k > bestsize
        then flm_inner blo bhi i j2len js (newj2len(j \<mapsto> k), i + 1 - k, j + 1 - k, k)
        else flm_inner blo bhi i j2len js (newj2len(j \<mapsto> k), besti, bestj, bestsize))"

text \<open>One iteration of the outer loop: \<^verbatim>\<open>for i in range(alo, ahi)\<close>.\<close>

definition flm_row ::
  "'a list \<Rightarrow> ('a \<rightharpoonup> nat list) \<Rightarrow> nat \<Rightarrow> nat \<Rightarrow>
   (nat \<rightharpoonup> nat) \<times> nat \<times> nat \<times> nat \<Rightarrow> nat \<Rightarrow> (nat \<rightharpoonup> nat) \<times> nat \<times> nat \<times> nat" where
  "flm_row a b2j blo bhi st i =
     (case st of (j2len, best) \<Rightarrow>
        flm_inner blo bhi i j2len (case b2j (a ! i) of None \<Rightarrow> [] | Some js \<Rightarrow> js)
          (Map.empty, best))"

text \<open>
  The four \<^verbatim>\<open>while\<close> loops that extend the best match at either end.  The first two ask
  for \<^verbatim>\<open>not isbjunk(...)\<close>, the last two for \<^verbatim>\<open>isbjunk(...)\<close>; \<open>junk\<close> selects which.
\<close>

function extend_left ::
  "bool \<Rightarrow> 'a list \<Rightarrow> 'a list \<Rightarrow> nat \<Rightarrow> nat \<Rightarrow> nat \<times> nat \<times> nat \<Rightarrow> nat \<times> nat \<times> nat" where
  "extend_left junk a b alo blo (besti, bestj, bestsize) =
     (if besti > alo \<and> bestj > blo \<and> isbjunk (b ! (bestj - 1)) = junk
         \<and> a ! (besti - 1) = b ! (bestj - 1)
      then extend_left junk a b alo blo (besti - 1, bestj - 1, bestsize + 1)
      else (besti, bestj, bestsize))"
  by pat_completeness auto
termination
  by (relation "measure (\<lambda>(junk, a, b, alo, blo, besti, bestj, bestsize). besti)") auto

function extend_right ::
  "bool \<Rightarrow> 'a list \<Rightarrow> 'a list \<Rightarrow> nat \<Rightarrow> nat \<Rightarrow> nat \<times> nat \<times> nat \<Rightarrow> nat \<times> nat \<times> nat" where
  "extend_right junk a b ahi bhi (besti, bestj, bestsize) =
     (if besti + bestsize < ahi \<and> bestj + bestsize < bhi \<and> isbjunk (b ! (bestj + bestsize)) = junk
         \<and> a ! (besti + bestsize) = b ! (bestj + bestsize)
      then extend_right junk a b ahi bhi (besti, bestj, bestsize + 1)
      else (besti, bestj, bestsize))"
  by pat_completeness auto
termination
  by (relation "measure (\<lambda>(junk, a, b, ahi, bhi, besti, bestj, bestsize). ahi - (besti + bestsize))")
     auto

declare extend_left.simps [simp del] extend_right.simps [simp del]

definition find_longest_match ::
  "'a list \<Rightarrow> 'a list \<Rightarrow> nat \<Rightarrow> nat \<Rightarrow> nat \<Rightarrow> nat \<Rightarrow> nat \<times> nat \<times> nat" where
  "find_longest_match a b alo ahi blo bhi =
     (let best0 = snd (foldl (flm_row a (chain_b b) blo bhi) (Map.empty, alo, blo, 0) [alo..<ahi]);
          best1 = extend_left False a b alo blo best0;
          best2 = extend_right False a b ahi bhi best1;
          best3 = extend_left True a b alo blo best2
      in extend_right True a b ahi bhi best3)"

subsection \<open>The best match lies inside the window\<close>

text \<open>
  Invariants of the two loops of \<^verbatim>\<open>find_longest_match\<close>: every entry \<open>j2len[j] = k\<close>
  describes a run of \<open>k\<close> positions ending at row \<open>n - 1\<close> and column \<open>j\<close> that starts inside
  the window, and the best match is either the initial \<open>(alo, blo, 0)\<close> or lies inside it.
\<close>

definition row_inv :: "nat \<Rightarrow> nat \<Rightarrow> nat \<Rightarrow> nat \<Rightarrow> (nat \<rightharpoonup> nat) \<Rightarrow> bool" where
  "row_inv alo blo bhi n m \<longleftrightarrow>
     (\<forall>j k. m j = Some k \<longrightarrow> 1 \<le> k \<and> k + alo \<le> n \<and> k + blo \<le> j + 1 \<and> j < bhi)"

definition best_inv :: "nat \<Rightarrow> nat \<Rightarrow> nat \<Rightarrow> nat \<Rightarrow> nat \<times> nat \<times> nat \<Rightarrow> bool" where
  "best_inv alo blo n bhi best \<longleftrightarrow>
     (case best of (besti, bestj, bestsize) \<Rightarrow>
        alo \<le> besti \<and> blo \<le> bestj \<and>
        (if bestsize = 0 then besti = alo \<and> bestj = blo
         else besti + bestsize \<le> n \<and> bestj + bestsize \<le> bhi))"

lemma j2lenget_bound:
  assumes "row_inv alo blo bhi i prev" "blo \<le> j" "alo \<le> i"
  shows "j2lenget prev j + 1 + alo \<le> i + 1 \<and> j2lenget prev j + 1 + blo \<le> j + 1"
proof (cases "j = 0")
  case True
  with assms show ?thesis by (simp add: j2lenget_def)
next
  case False
  show ?thesis
  proof (cases "prev (j - 1)")
    case None
    with False assms show ?thesis by (simp add: j2lenget_def)
  next
    case (Some k0)
    with assms(1) have "k0 + alo \<le> i \<and> k0 + blo \<le> j - 1 + 1"
      unfolding row_inv_def by blast
    with False Some show ?thesis by (simp add: j2lenget_def)
  qed
qed

lemma flm_inner_inv:
  assumes "row_inv alo blo bhi i prev" "alo \<le> i"
    and "row_inv alo blo bhi (i + 1) new" "best_inv alo blo (i + 1) bhi best"
    and "flm_inner blo bhi i prev js (new, best) = (new', best')"
  shows "row_inv alo blo bhi (i + 1) new' \<and> best_inv alo blo (i + 1) bhi best'"
  using assms(3-)
proof (induction js arbitrary: new best)
  case Nil
  then show ?case by simp
next
  case (Cons j js)
  obtain besti bestj bestsize where best: "best = (besti, bestj, bestsize)"
    by (cases best) auto
  show ?case
  proof (cases "j < blo")
    case True
    with Cons best show ?thesis by simp
  next
    case lo: False
    show ?thesis
    proof (cases "j \<ge> bhi")
      case True
      with Cons lo best show ?thesis by simp
    next
      case hi: False
      define k where "k = j2lenget prev j + 1"
      have kb: "k + alo \<le> i + 1" "k + blo \<le> j + 1" "1 \<le> k"
        using j2lenget_bound[OF assms(1) _ assms(2), of j] lo by (auto simp: k_def)
      have new_inv: "row_inv alo blo bhi (i + 1) (new(j \<mapsto> k))"
        using Cons.prems(1) kb hi unfolding row_inv_def by auto
      show ?thesis
      proof (cases "k > bestsize")
        case True
        have "best_inv alo blo (i + 1) bhi (i + 1 - k, j + 1 - k, k)"
          using kb hi unfolding best_inv_def by auto
        note binv = this
        have step: "flm_inner blo bhi i prev (j # js) (new, best)
            = flm_inner blo bhi i prev js (new(j \<mapsto> k), i + 1 - k, j + 1 - k, k)"
          using lo hi True best by (simp add: k_def Let_def del: fun_upd_apply)
        show ?thesis
          by (rule Cons.IH[OF new_inv binv Cons.prems(3)[unfolded step]])
      next
        case False
        have step: "flm_inner blo bhi i prev (j # js) (new, best)
            = flm_inner blo bhi i prev js (new(j \<mapsto> k), best)"
          using lo hi False best by (simp add: k_def Let_def del: fun_upd_apply)
        show ?thesis
          by (rule Cons.IH[OF new_inv Cons.prems(2) Cons.prems(3)[unfolded step]])
      qed
    qed
  qed
qed

lemma row_inv_empty: "row_inv alo blo bhi n Map.empty"
  by (simp add: row_inv_def)

lemma best_inv_mono: "best_inv alo blo n bhi best \<Longrightarrow> n \<le> n' \<Longrightarrow> best_inv alo blo n' bhi best"
  by (auto simp: best_inv_def split: prod.splits if_splits)

lemma flm_row_inv:
  assumes "row_inv alo blo bhi i (fst st)" "best_inv alo blo i bhi (snd st)" "alo \<le> i"
  shows "row_inv alo blo bhi (i + 1) (fst (flm_row a b2j blo bhi st i))
       \<and> best_inv alo blo (i + 1) bhi (snd (flm_row a b2j blo bhi st i))"
proof -
  obtain prev best where st: "st = (prev, best)" by (cases st) auto
  obtain new' best' where r: "flm_row a b2j blo bhi st i = (new', best')"
    by (cases "flm_row a b2j blo bhi st i") auto
  have "row_inv alo blo bhi (i + 1) new' \<and> best_inv alo blo (i + 1) bhi best'"
    by (rule flm_inner_inv[of alo blo bhi i prev Map.empty best])
       (use assms st r in \<open>auto simp: flm_row_def row_inv_empty intro: best_inv_mono\<close>)
  with r show ?thesis by simp
qed

lemma flm_rows_inv:
  "alo \<le> n \<Longrightarrow>
   row_inv alo blo bhi n (fst (foldl (flm_row a b2j blo bhi) (Map.empty, alo, blo, 0) [alo..<n]))
 \<and> best_inv alo blo n bhi (snd (foldl (flm_row a b2j blo bhi) (Map.empty, alo, blo, 0) [alo..<n]))"
proof (induction n)
  case 0
  then show ?case by (simp add: row_inv_empty best_inv_def)
next
  case (Suc n)
  show ?case
  proof (cases "alo \<le> n")
    case True
    with Suc.IH have ih: "row_inv alo blo bhi n (fst (foldl (flm_row a b2j blo bhi) (Map.empty, alo, blo, 0) [alo..<n]))"
      "best_inv alo blo n bhi (snd (foldl (flm_row a b2j blo bhi) (Map.empty, alo, blo, 0) [alo..<n]))"
      by auto
    from flm_row_inv[OF ih True] True show ?thesis by simp
  next
    case False
    with Suc.prems have "alo = Suc n" by simp
    then show ?thesis by (simp add: row_inv_empty best_inv_def)
  qed
qed

lemma flm_best0_inv:
  "best_inv alo blo ahi bhi (snd (foldl (flm_row a b2j blo bhi) (Map.empty, alo, blo, 0) [alo..<ahi]))"
proof (cases "alo \<le> ahi")
  case True
  then show ?thesis using flm_rows_inv by blast
next
  case False
  then show ?thesis by (simp add: best_inv_def)
qed

lemma extend_left_inv:
  "best_inv alo blo ahi bhi best \<Longrightarrow> best_inv alo blo ahi bhi (extend_left junk a b alo blo best)"
proof (induction junk a b alo blo best rule: extend_left.induct)
  case (1 junk a b alo blo besti bestj bestsize)
  show ?case
  proof (cases "besti > alo \<and> bestj > blo \<and> isbjunk (b ! (bestj - 1)) = junk
         \<and> a ! (besti - 1) = b ! (bestj - 1)")
    case True
    have "best_inv alo blo ahi bhi (besti - 1, bestj - 1, bestsize + 1)"
      using "1.prems" True by (auto simp: best_inv_def split: if_splits)
    from "1.IH"[OF True this] show ?thesis
      by (subst extend_left.simps) (simp only: if_P[OF True] if_True)
  next
    case False
    with "1.prems" show ?thesis
      by (subst extend_left.simps) (simp only: if_not_P[OF False] if_False)
  qed
qed

lemma extend_right_inv:
  "best_inv alo blo ahi bhi best \<Longrightarrow> best_inv alo blo ahi bhi (extend_right junk a b ahi bhi best)"
proof (induction junk a b ahi bhi best rule: extend_right.induct)
  case (1 junk a b ahi bhi besti bestj bestsize)
  show ?case
  proof (cases "besti + bestsize < ahi \<and> bestj + bestsize < bhi \<and> isbjunk (b ! (bestj + bestsize)) = junk
         \<and> a ! (besti + bestsize) = b ! (bestj + bestsize)")
    case True
    have "best_inv alo blo ahi bhi (besti, bestj, bestsize + 1)"
      using "1.prems" True by (auto simp: best_inv_def split: if_splits)
    from "1.IH"[OF True this] show ?thesis
      by (subst extend_right.simps) (simp only: if_P[OF True] if_True)
  next
    case False
    with "1.prems" show ?thesis
      by (subst extend_right.simps) (simp only: if_not_P[OF False] if_False)
  qed
qed

lemma flm_best_inv: "best_inv alo blo ahi bhi (find_longest_match a b alo ahi blo bhi)"
  unfolding find_longest_match_def Let_def
  by (intro extend_right_inv extend_left_inv flm_best0_inv)

lemma flm_bounds:
  assumes "find_longest_match a b alo ahi blo bhi = (i, j, k)" "k \<noteq> 0"
  shows "alo \<le> i \<and> i + k \<le> ahi \<and> blo \<le> j \<and> j + k \<le> bhi"
  using flm_best_inv[of alo blo ahi bhi a b] assms by (simp add: best_inv_def)

subsection \<open>\<^verbatim>\<open>get_matching_blocks\<close> and \<^verbatim>\<open>get_opcodes\<close>\<close>

type_synonym block = "nat \<times> nat \<times> nat"
type_synonym window = "nat \<times> nat \<times> nat \<times> nat"

text \<open>
  The work list of \<^verbatim>\<open>get_matching_blocks\<close>.  Python pops from and appends to the end of
  \<^verbatim>\<open>queue\<close>; the head of the list below is that end, so the window pushed last (the one to
  the right of the match) is the next one popped.
\<close>

function gmb_loop :: "'a list \<Rightarrow> 'a list \<Rightarrow> window list \<Rightarrow> block list \<Rightarrow> block list" where
  "gmb_loop a b [] matching_blocks = matching_blocks"
| "gmb_loop a b ((alo, ahi, blo, bhi) # queue) matching_blocks =
     (case find_longest_match a b alo ahi blo bhi of (i, j, k) \<Rightarrow>
        if k \<noteq> 0 then
          gmb_loop a b
            ((if i + k < ahi \<and> j + k < bhi then [(i + k, ahi, j + k, bhi)] else []) @
             (if alo < i \<and> blo < j then [(alo, i, blo, j)] else []) @ queue)
            (matching_blocks @ [(i, j, k)])
        else gmb_loop a b queue matching_blocks)"
  by pat_completeness auto
termination
proof (relation "measure (\<lambda>(a, b, queue, mbs). sum_list (map (\<lambda>(alo, ahi, blo, bhi). 2 * (ahi - alo) + 1) queue))",
    goal_cases)
  case 1
  then show ?case by simp
next
  case (2 a b alo ahi blo bhi queue matching_blocks i y j k)
  then have "find_longest_match a b alo ahi blo bhi = (i, j, k)" by simp
  from flm_bounds[OF this] 2 have "alo \<le> i \<and> i + k \<le> ahi \<and> 0 < k" by simp
  then show ?case by auto
next
  case 3
  then show ?case by simp
qed

declare gmb_loop.simps [simp del]

text \<open>The loop that collapses adjacent blocks; the state is \<open>(i1, j1, k1)\<close> and \<^verbatim>\<open>non_adjacent\<close>.\<close>

fun collapse_loop :: "block list \<Rightarrow> block \<Rightarrow> block list \<Rightarrow> block \<times> block list" where
  "collapse_loop [] cur non_adjacent = (cur, non_adjacent)"
| "collapse_loop ((i2, j2, k2) # rest) (i1, j1, k1) non_adjacent =
     (if i1 + k1 = i2 \<and> j1 + k1 = j2
      then collapse_loop rest (i1, j1, k1 + k2) non_adjacent
      else collapse_loop rest (i2, j2, k2)
             (if k1 \<noteq> 0 then non_adjacent @ [(i1, j1, k1)] else non_adjacent))"

text \<open>\<^verbatim>\<open>matching_blocks.sort()\<close> orders the triples lexicographically.\<close>

definition get_matching_blocks :: "'a list \<Rightarrow> 'a list \<Rightarrow> block list" where
  "get_matching_blocks a b =
     (let la = length a; lb = length b;
          matching_blocks = sort (gmb_loop a b [(0, la, 0, lb)] [])
      in case collapse_loop matching_blocks (0, 0, 0) [] of
           ((i1, j1, k1), non_adjacent) \<Rightarrow>
             (if k1 \<noteq> 0 then non_adjacent @ [(i1, j1, k1)] else non_adjacent) @ [(la, lb, 0)])"

datatype tag = Replace | Delete | Insert | Equal

type_synonym opcode = "tag \<times> nat \<times> nat \<times> nat \<times> nat"

text \<open>The loop of \<^verbatim>\<open>get_opcodes\<close>; Python's empty tag \<^verbatim>\<open>''\<close> is \<open>None\<close>.\<close>

fun opcodes_loop :: "block list \<Rightarrow> nat \<Rightarrow> nat \<Rightarrow> opcode list \<Rightarrow> opcode list" where
  "opcodes_loop [] i j answer = answer"
| "opcodes_loop ((ai, bj, size') # rest) i j answer =
     (let tag = (if i < ai \<and> j < bj then Some Replace
                 else if i < ai then Some Delete
                 else if j < bj then Some Insert
                 else None);
          answer1 = (case tag of Some t \<Rightarrow> answer @ [(t, i, ai, j, bj)] | None \<Rightarrow> answer);
          answer2 = (if size' \<noteq> 0 then answer1 @ [(Equal, ai, ai + size', bj, bj + size')] else answer1)
      in opcodes_loop rest (ai + size') (bj + size') answer2)"

definition get_opcodes :: "'a list \<Rightarrow> 'a list \<Rightarrow> opcode list" where
  "get_opcodes a b = opcodes_loop (get_matching_blocks a b) 0 0 []"

section \<open>The sequence aligner (\<^verbatim>\<open>_align_logs\<close>)\<close>

text \<open>
  A row of the alignment is the tuple \<open>(stg_line, prd_line, stg_no, prd_no)\<close>; Python's
  \<^verbatim>\<open>None\<close> for a line number is \<open>None\<close>.
\<close>

type_synonym line_pair = "pystr \<times> pystr \<times> nat option \<times> nat option"

text \<open>\<^verbatim>\<open>xs[i]\<close> raises \<^verbatim>\<open>IndexError\<close> beyond the end of the list.\<close>

definition getitem :: "'a list \<Rightarrow> nat \<Rightarrow> error + 'a" where
  "getitem xs i = (if i < length xs then Inr (xs ! i) else Inl IndexError)"

text \<open>Running a loop body over a list, stopping at the first exception.\<close>

fun for_each :: "('a \<Rightarrow> error + 'b) \<Rightarrow> 'a list \<Rightarrow> error + 'b list" where
  "for_each f [] = Inr []"
| "for_each f (x # xs) =
     (case f x of
        Inl e \<Rightarrow> Inl e
      | Inr y \<Rightarrow> (case for_each f xs of Inl e \<Rightarrow> Inl e | Inr ys \<Rightarrow> Inr (y # ys)))"

text \<open>
  The rows that one opcode appends to \<^verbatim>\<open>aligned\<close>.  \<open>i2 - i1\<close> and \<open>j2 - j1\<close> are natural
  numbers: where Python's difference is negative the range is empty either way.
\<close>

fun align_opcode :: "pystr list \<Rightarrow> pystr list \<Rightarrow> opcode \<Rightarrow> error + line_pair list" where
  "align_opcode stg_lines prd_lines (Equal, i1, i2, j1, j2) =
     for_each (\<lambda>(s_idx, p_idx).
         case getitem stg_lines s_idx of Inl e \<Rightarrow> Inl e | Inr stg_line \<Rightarrow>
         case getitem prd_lines p_idx of Inl e \<Rightarrow> Inl e | Inr prd_line \<Rightarrow>
           Inr (stg_line, prd_line, Some (s_idx + 1), Some (p_idx + 1)))
       (zip [i1..<i2] [j1..<j2])"
| "align_opcode stg_lines prd_lines (Replace, i1, i2, j1, j2) =
     (let span = max (i2 - i1) (j2 - j1) in
      for_each (\<lambda>offset.
         let s_idx = i1 + offset; p_idx = j1 + offset in
         case (if s_idx < i2 then getitem stg_lines s_idx else Inr []) of Inl e \<Rightarrow> Inl e | Inr stg_line \<Rightarrow>
         case (if p_idx < j2 then getitem prd_lines p_idx else Inr []) of Inl e \<Rightarrow> Inl e | Inr prd_line \<Rightarrow>
           Inr (stg_line, prd_line,
                if s_idx < i2 then Some (s_idx + 1) else None,
                if p_idx < j2 then Some (p_idx + 1) else None))
       [0..<span])"
| "align_opcode stg_lines prd_lines (Delete, i1, i2, j1, j2) =
     for_each (\<lambda>s_idx.
         case getitem stg_lines s_idx of Inl e \<Rightarrow> Inl e | Inr stg_line \<Rightarrow>
           Inr (stg_line, [], Some (s_idx + 1), None))
       [i1..<i2]"
| "align_opcode stg_lines prd_lines (Insert, i1, i2, j1, j2) =
     for_each (\<lambda>p_idx.
         case getitem prd_lines p_idx of Inl e \<Rightarrow> Inl e | Inr prd_line \<Rightarrow>
           Inr ([], prd_line, None, Some (p_idx + 1)))
       [j1..<j2]"

fun align_opcodes ::
  "pystr list \<Rightarrow> pystr list \<Rightarrow> opcode list \<Rightarrow> line_pair list \<Rightarrow> error + line_pair list" where
  "align_opcodes stg_lines prd_lines [] aligned = Inr aligned"
| "align_opcodes stg_lines prd_lines (opc # rest) aligned =
     (case align_opcode stg_lines prd_lines opc of
        Inl e \<Rightarrow> Inl e
      | Inr rows \<Rightarrow> align_opcodes stg_lines prd_lines rest (aligned @ rows))"

definition align_logs :: "pystr list \<Rightarrow> pystr list \<Rightarrow> error + line_pair list" where
  "align_logs stg_lines prd_lines =
     align_opcodes stg_lines prd_lines (get_opcodes stg_lines prd_lines) []"

subsection \<open>The matching blocks are ordered and disjoint\<close>

text \<open>
  Every window still in the queue and every block already found lie apart from each
  other: one ends, in both sequences, before the other starts.  Splitting a window at the
  match found in it keeps that.
\<close>

fun blk_window :: "block \<Rightarrow> window" where
  "blk_window (i, j, k) = (i, i + k, j, j + k)"

fun before :: "window \<Rightarrow> window \<Rightarrow> bool" where
  "before (alo, ahi, blo, bhi) (alo', ahi', blo', bhi') \<longleftrightarrow> ahi \<le> alo' \<and> bhi \<le> blo'"

definition apart :: "window \<Rightarrow> window \<Rightarrow> bool" where
  "apart x y \<longleftrightarrow> before x y \<or> before y x"

fun inside :: "window \<Rightarrow> window \<Rightarrow> bool" where
  "inside (alo, ahi, blo, bhi) (alo', ahi', blo', bhi') \<longleftrightarrow>
     alo' \<le> alo \<and> ahi \<le> ahi' \<and> blo' \<le> blo \<and> bhi \<le> bhi'"

lemma apart_sym: "apart x y \<Longrightarrow> apart y x"
  by (auto simp: apart_def)

lemma apart_inside: "inside x w \<Longrightarrow> apart w y \<Longrightarrow> apart x y"
  by (cases x; cases w; cases y) (auto simp: apart_def)

lemma sorted_wrt_apart_replace:
  assumes "sorted_wrt apart (w # rest)" "sorted_wrt apart new" "\<forall>x\<in>set new. inside x w"
  shows "sorted_wrt apart (new @ rest)"
  using assms by (auto simp: sorted_wrt_append intro: apart_inside)

lemma sorted_wrt_apart_rotate:
  "sorted_wrt apart (xs @ [x] @ ys @ zs) \<Longrightarrow> sorted_wrt apart ((xs @ ys) @ zs @ [x])"
  by (auto simp: sorted_wrt_append intro: apart_sym)

definition blocks_ok :: "nat \<Rightarrow> nat \<Rightarrow> block list \<Rightarrow> bool" where
  "blocks_ok la lb bs \<longleftrightarrow> (\<forall>(i, j, k)\<in>set bs. 0 < k \<and> i + k \<le> la \<and> j + k \<le> lb)"

definition windows_ok :: "nat \<Rightarrow> nat \<Rightarrow> window list \<Rightarrow> bool" where
  "windows_ok la lb ws \<longleftrightarrow> (\<forall>(alo, ahi, blo, bhi)\<in>set ws. ahi \<le> la \<and> bhi \<le> lb)"

lemma gmb_loop_inv:
  assumes "sorted_wrt apart (queue @ map blk_window mbs)" "windows_ok la lb queue" "blocks_ok la lb mbs"
  shows "sorted_wrt apart (map blk_window (gmb_loop a b queue mbs)) \<and> blocks_ok la lb (gmb_loop a b queue mbs)"
  using assms
proof (induction a b queue mbs rule: gmb_loop.induct)
  case (1 a b matching_blocks)
  then show ?case by (simp add: gmb_loop.simps)
next
  case (2 a b alo ahi blo bhi queue mbs)
  obtain i j k where flm: "find_longest_match a b alo ahi blo bhi = (i, j, k)"
    by (cases "find_longest_match a b alo ahi blo bhi") auto
  show ?case
  proof (cases "k = 0")
    case True
    have "gmb_loop a b ((alo, ahi, blo, bhi) # queue) mbs = gmb_loop a b queue mbs"
      using flm True by (simp add: gmb_loop.simps)
    moreover have "sorted_wrt apart (queue @ map blk_window mbs)" "windows_ok la lb queue"
      using "2.prems" by (auto simp: windows_ok_def)
    moreover have "\<not> k \<noteq> 0" using True by simp
    ultimately show ?thesis
      using "2.IH"(2)[OF flm[symmetric] refl _ _ _ "2.prems"(3)] by simp
  next
    case False
    define right where "right = (if i + k < ahi \<and> j + k < bhi then [(i + k, ahi, j + k, bhi)] else [])"
    define left where "left = (if alo < i \<and> blo < j then [(alo, i, blo, j)] else [])"
    have step: "gmb_loop a b ((alo, ahi, blo, bhi) # queue) mbs
        = gmb_loop a b (right @ left @ queue) (mbs @ [(i, j, k)])"
      using flm False by (simp add: gmb_loop.simps right_def left_def)
    from flm_bounds[OF flm False] have bnd: "alo \<le> i" "i + k \<le> ahi" "blo \<le> j" "j + k \<le> bhi"
      by auto
    have w: "ahi \<le> la" "bhi \<le> lb" using "2.prems"(2) by (auto simp: windows_ok_def)
    let ?new = "(right @ left) @ [blk_window (i, j, k)]"
    have new_sorted: "sorted_wrt apart ?new"
      using bnd by (auto simp: right_def left_def sorted_wrt_append apart_def)
    have new_inside: "\<forall>x\<in>set ?new. inside x (alo, ahi, blo, bhi)"
      using bnd by (auto simp: right_def left_def)
    have "sorted_wrt apart (?new @ (queue @ map blk_window mbs))"
      by (rule sorted_wrt_apart_replace[OF _ new_sorted new_inside]) (use "2.prems"(1) in simp)
    then have "sorted_wrt apart ((right @ left) @ [blk_window (i, j, k)] @ queue @ map blk_window mbs)"
      by simp
    from sorted_wrt_apart_rotate[OF this]
    have s: "sorted_wrt apart ((right @ left @ queue) @ map blk_window (mbs @ [(i, j, k)]))"
      by simp
    have wq: "windows_ok la lb (right @ left @ queue)"
      using "2.prems"(2) bnd w by (auto simp: windows_ok_def right_def left_def)
    have bq: "blocks_ok la lb (mbs @ [(i, j, k)])"
      using "2.prems"(3) bnd w False by (auto simp: blocks_ok_def)
    show ?thesis
      unfolding step
      using "2.IH"(1)[OF flm[symmetric] refl False] s wq bq
      by (simp add: right_def left_def)
  qed
qed

fun blk_before :: "block \<Rightarrow> block \<Rightarrow> bool" where
  "blk_before (i, j, k) (i', j', k') \<longleftrightarrow> i + k \<le> i' \<and> j + k \<le> j'"

fun blk_in :: "nat \<Rightarrow> nat \<Rightarrow> block \<Rightarrow> bool" where
  "blk_in la lb (i, j, k) \<longleftrightarrow> i + k \<le> la \<and> j + k \<le> lb"

lemma apart_commute: "apart x y \<longleftrightarrow> apart y x"
  by (auto simp: apart_def)

lemma sorted_wrt_apart_insort:
  "sorted_wrt apart (map blk_window (insort x xs)) = sorted_wrt apart (map blk_window (x # xs))"
  by (induction xs) (auto simp: set_insort_key dest: apart_sym)

lemma sorted_wrt_apart_sort:
  "sorted_wrt apart (map blk_window (sort xs)) = sorted_wrt apart (map blk_window xs)"
  by (induction xs) (auto simp: sorted_wrt_apart_insort)

lemma blocks_ok_sort: "blocks_ok la lb (sort xs) = blocks_ok la lb xs"
  by (simp add: blocks_ok_def)

lemma le_apart_before:
  assumes "x \<le> y" "apart (blk_window x) (blk_window y)" "0 < snd (snd y)"
  shows "blk_before x y"
  using assms by (cases x; cases y) (auto simp: apart_def less_eq_prod_def)

lemma sorted_apart_chain:
  "sorted ys \<Longrightarrow> sorted_wrt apart (map blk_window ys) \<Longrightarrow> blocks_ok la lb ys
     \<Longrightarrow> sorted_wrt blk_before ys"
proof (induction ys)
  case Nil
  then show ?case by simp
next
  case (Cons x ys)
  have "\<forall>y\<in>set ys. blk_before x y"
  proof
    fix y assume y: "y \<in> set ys"
    with Cons.prems have "x \<le> y" "apart (blk_window x) (blk_window y)" "0 < snd (snd y)"
      by (auto simp: blocks_ok_def)
    then show "blk_before x y" by (rule le_apart_before)
  qed
  moreover have "sorted_wrt blk_before ys"
    using Cons by (auto simp: blocks_ok_def)
  ultimately show ?case by simp
qed

lemma blk_before_trans: "blk_before x y \<Longrightarrow> blk_before y z \<Longrightarrow> blk_before x z"
  by (cases x; cases y; cases z) auto

lemma collapse_loop_chain:
  assumes "sorted_wrt blk_before (na @ cur # rest)" "\<forall>x\<in>set (na @ cur # rest). blk_in la lb x"
    and "\<forall>x\<in>set (na @ rest). 0 < snd (snd x)"
    and "collapse_loop rest cur na = (cur', na')"
  shows "sorted_wrt blk_before (na' @ [cur']) \<and> (\<forall>x\<in>set (na' @ [cur']). blk_in la lb x)
       \<and> (\<forall>x\<in>set na'. 0 < snd (snd x))"
  using assms
proof (induction rest arbitrary: cur na)
  case Nil
  then show ?case by auto
next
  case (Cons nxt rest)
  obtain i1 j1 k1 where cur: "cur = (i1, j1, k1)" by (cases cur) auto
  obtain i2 j2 k2 where nxt: "nxt = (i2, j2, k2)" by (cases nxt) auto
  show ?case
  proof (cases "i1 + k1 = i2 \<and> j1 + k1 = j2")
    case True
    have step: "collapse_loop (nxt # rest) cur na = collapse_loop rest (i1, j1, k1 + k2) na"
      using True cur nxt by simp
    have 1: "sorted_wrt blk_before (na @ (i1, j1, k1 + k2) # rest)"
      using Cons.prems(1) True cur nxt by (auto simp: sorted_wrt_append)
    have 2: "\<forall>x\<in>set (na @ (i1, j1, k1 + k2) # rest). blk_in la lb x"
      using Cons.prems(2) True cur nxt by auto
    have 3: "\<forall>x\<in>set (na @ rest). 0 < snd (snd x)"
      using Cons.prems(3) by auto
    show ?thesis
      by (rule Cons.IH[OF 1 2 3 Cons.prems(4)[unfolded step]])
  next
    case False
    show ?thesis
    proof (cases "k1 = 0")
      case k0: True
      have step: "collapse_loop (nxt # rest) cur na = collapse_loop rest nxt na"
        using False cur nxt k0 by auto
      have 1: "sorted_wrt blk_before (na @ nxt # rest)"
        using Cons.prems(1) by (auto simp: sorted_wrt_append)
      have 2: "\<forall>x\<in>set (na @ nxt # rest). blk_in la lb x"
        using Cons.prems(2) by auto
      have 3: "\<forall>x\<in>set (na @ rest). 0 < snd (snd x)"
        using Cons.prems(3) by auto
      show ?thesis
        by (rule Cons.IH[OF 1 2 3 Cons.prems(4)[unfolded step]])
    next
      case k1: False
      have step: "collapse_loop (nxt # rest) cur na = collapse_loop rest nxt (na @ [cur])"
        using False cur nxt k1 by auto
      have 1: "sorted_wrt blk_before ((na @ [cur]) @ nxt # rest)"
        using Cons.prems(1) by simp
      have 2: "\<forall>x\<in>set ((na @ [cur]) @ nxt # rest). blk_in la lb x"
        using Cons.prems(2) by auto
      have 3: "\<forall>x\<in>set ((na @ [cur]) @ rest). 0 < snd (snd x)"
        using Cons.prems(3) k1 cur by auto
      show ?thesis
        by (rule Cons.IH[OF 1 2 3 Cons.prems(4)[unfolded step]])
    qed
  qed
qed

subsection \<open>The opcodes tile both sequences\<close>

lemma gmb_loop_initial:
  "sorted_wrt apart (map blk_window (gmb_loop a b [(0, length a, 0, length b)] []))
   \<and> blocks_ok (length a) (length b) (gmb_loop a b [(0, length a, 0, length b)] [])"
  by (rule gmb_loop_inv) (simp_all add: windows_ok_def blocks_ok_def)

lemma get_matching_blocks_chain:
  "\<exists>bs. get_matching_blocks a b = bs @ [(length a, length b, 0)]
        \<and> sorted_wrt blk_before (bs @ [(length a, length b, 0)])
        \<and> (\<forall>x\<in>set bs. 0 < snd (snd x))"
proof -
  define mbs where "mbs = sort (gmb_loop a b [(0, length a, 0, length b)] [])"
  have ok: "blocks_ok (length a) (length b) mbs"
    using gmb_loop_initial[of a b] by (simp add: mbs_def blocks_ok_sort)
  have "sorted_wrt apart (map blk_window mbs)"
    using gmb_loop_initial[of a b] by (simp add: mbs_def sorted_wrt_apart_sort)
  moreover have "sorted mbs" by (simp add: mbs_def)
  ultimately have chain: "sorted_wrt blk_before mbs"
    using ok by (blast intro: sorted_apart_chain)
  obtain cur na where cl: "collapse_loop mbs (0, 0, 0) [] = (cur, na)"
    by (cases "collapse_loop mbs (0, 0, 0) []") auto
  obtain i1 j1 k1 where cur: "cur = (i1, j1, k1)" by (cases cur) auto
  have 1: "sorted_wrt blk_before ([] @ (0, 0, 0) # mbs)"
    using chain by auto
  have 2: "\<forall>x\<in>set ([] @ (0, 0, 0) # mbs). blk_in (length a) (length b) x"
    using ok by (auto simp: blocks_ok_def)
  have 3: "\<forall>x\<in>set ([] @ mbs). 0 < snd (snd x)"
    using ok by (auto simp: blocks_ok_def)
  from collapse_loop_chain[OF 1 2 3 cl]
  have r: "sorted_wrt blk_before (na @ [cur])" "\<forall>x\<in>set (na @ [cur]). blk_in (length a) (length b) x"
    "\<forall>x\<in>set na. 0 < snd (snd x)"
    by auto
  define bs where "bs = (if k1 \<noteq> 0 then na @ [(i1, j1, k1)] else na)"
  have gm: "get_matching_blocks a b = bs @ [(length a, length b, 0)]"
    using cl cur by (simp add: get_matching_blocks_def Let_def mbs_def[symmetric] bs_def)
  have "sorted_wrt blk_before bs"
    using r(1) cur by (auto simp: bs_def sorted_wrt_append)
  moreover have "\<forall>x\<in>set bs. blk_before x (length a, length b, 0)"
    using r(2) cur by (auto simp: bs_def)
  ultimately have "sorted_wrt blk_before (bs @ [(length a, length b, 0)])"
    by (simp add: sorted_wrt_append)
  moreover have "\<forall>x\<in>set bs. 0 < snd (snd x)"
    using r(3) cur by (auto simp: bs_def)
  ultimately show ?thesis using gm by blast
qed

text \<open>
  What \<^verbatim>\<open>difflib\<close> documents of the opcodes: the first starts at \<open>(0, 0)\<close>, each starts
  where the previous one ends, the last ends at \<open>(len(a), len(b))\<close>, and each tag matches
  the shape of its two ranges.
\<close>

fun wf_opcode :: "opcode \<Rightarrow> bool" where
  "wf_opcode (Replace, i1, i2, j1, j2) \<longleftrightarrow> i1 < i2 \<and> j1 < j2"
| "wf_opcode (Delete, i1, i2, j1, j2) \<longleftrightarrow> i1 < i2 \<and> j1 = j2"
| "wf_opcode (Insert, i1, i2, j1, j2) \<longleftrightarrow> i1 = i2 \<and> j1 < j2"
| "wf_opcode (Equal, i1, i2, j1, j2) \<longleftrightarrow> i1 < i2 \<and> j1 < j2 \<and> i2 - i1 = j2 - j1"

fun tiles :: "opcode list \<Rightarrow> nat \<Rightarrow> nat \<Rightarrow> nat \<Rightarrow> nat \<Rightarrow> bool" where
  "tiles [] i j la lb \<longleftrightarrow> i = la \<and> j = lb"
| "tiles ((tag, i1, i2, j1, j2) # ops) i j la lb \<longleftrightarrow>
     i1 = i \<and> j1 = j \<and> wf_opcode (tag, i1, i2, j1, j2) \<and> tiles ops i2 j2 la lb"

lemma tiles_append:
  "tiles (xs @ ys) i j la lb \<longleftrightarrow> (\<exists>i' j'. tiles xs i j i' j' \<and> tiles ys i' j' la lb)"
proof (induction xs arbitrary: i j)
  case Nil
  then show ?case by simp
next
  case (Cons opc xs)
  obtain tag i1 i2 j1 j2 where opc: "opc = (tag, i1, i2, j1, j2)" by (cases opc) auto
  show ?case unfolding opc by (simp add: Cons.IH)
qed

lemma tiles_le: "tiles ops i j la lb \<Longrightarrow> i \<le> la \<and> j \<le> lb"
proof (induction ops arbitrary: i j)
  case Nil
  then show ?case by simp
next
  case (Cons opc ops)
  obtain tag i1 i2 j1 j2 where opc: "opc = (tag, i1, i2, j1, j2)" by (cases opc) auto
  with Cons.prems have "wf_opcode (tag, i, i2, j, j2)" "tiles ops i2 j2 la lb" by auto
  with Cons.IH[of i2 j2] show ?case by (cases tag) auto
qed

lemma opcodes_loop_tiles:
  assumes "sorted_wrt blk_before (bs @ [(la, lb, 0)])" "\<forall>x\<in>set (bs @ [(la, lb, 0)]). i \<le> fst x \<and> j \<le> fst (snd x)"
  shows "\<exists>ops. opcodes_loop (bs @ [(la, lb, 0)]) i j answer = answer @ ops \<and> tiles ops i j la lb"
  using assms
proof (induction bs arbitrary: i j answer)
  case Nil
  then show ?case by (auto simp: Let_def)
next
  case (Cons blk bs)
  obtain ai bj sz where blk: "blk = (ai, bj, sz)" by (cases blk) auto
  define tag where "tag = (if i < ai \<and> j < bj then Some Replace
                 else if i < ai then Some Delete
                 else if j < bj then Some Insert
                 else None)"
  define hd1 where "hd1 = (case tag of Some t \<Rightarrow> [(t, i, ai, j, bj)] | None \<Rightarrow> [])"
  define hd2 where "hd2 = (if sz \<noteq> 0 then [(Equal, ai, ai + sz, bj, bj + sz)] else [])"
  have le: "i \<le> ai" "j \<le> bj" using Cons.prems(2) blk by auto
  have step: "opcodes_loop ((blk # bs) @ [(la, lb, 0)]) i j answer
      = opcodes_loop (bs @ [(la, lb, 0)]) (ai + sz) (bj + sz) (answer @ hd1 @ hd2)"
    by (auto simp: blk Let_def tag_def hd1_def hd2_def split: option.splits)
  have 1: "sorted_wrt blk_before (bs @ [(la, lb, 0)])"
    using Cons.prems(1) by simp
  have 2: "\<forall>x\<in>set (bs @ [(la, lb, 0)]). ai + sz \<le> fst x \<and> bj + sz \<le> fst (snd x)"
    using Cons.prems(1) blk by auto
  from Cons.IH[OF 1 2, of "answer @ hd1 @ hd2"]
  obtain ops where ops: "opcodes_loop (bs @ [(la, lb, 0)]) (ai + sz) (bj + sz) (answer @ hd1 @ hd2)
      = (answer @ hd1 @ hd2) @ ops" "tiles ops (ai + sz) (bj + sz) la lb"
    by blast
  have t1: "tiles hd1 i j ai bj"
    using le by (auto simp: hd1_def tag_def)
  have t2: "tiles hd2 ai bj (ai + sz) (bj + sz)"
    by (auto simp: hd2_def)
  have "tiles (hd1 @ hd2 @ ops) i j la lb"
    using t1 t2 ops(2) by (auto simp: tiles_append)
  with step ops(1) show ?case by auto
qed

lemma get_opcodes_tiles: "tiles (get_opcodes a b) 0 0 (length a) (length b)"
proof -
  from get_matching_blocks_chain[of a b] obtain bs where
    bs: "get_matching_blocks a b = bs @ [(length a, length b, 0)]"
      "sorted_wrt blk_before (bs @ [(length a, length b, 0)])"
    by blast
  from opcodes_loop_tiles[OF bs(2), of 0 0 "[]"] bs(1) show ?thesis
    by (auto simp: get_opcodes_def)
qed

subsection \<open>The rows of an alignment\<close>

text \<open>
  The rows an opcode contributes when every index it reads is inside its list, written
  without the exception plumbing; \<open>align_opcode_rows\<close> shows that this is what
  \<open>align_opcode\<close> returns for the opcodes of the matcher.
\<close>

fun opcode_rows :: "pystr list \<Rightarrow> pystr list \<Rightarrow> opcode \<Rightarrow> line_pair list" where
  "opcode_rows stg_lines prd_lines (Equal, i1, i2, j1, j2) =
     map (\<lambda>(s_idx, p_idx). (stg_lines ! s_idx, prd_lines ! p_idx, Some (s_idx + 1), Some (p_idx + 1)))
       (zip [i1..<i2] [j1..<j2])"
| "opcode_rows stg_lines prd_lines (Replace, i1, i2, j1, j2) =
     map (\<lambda>offset.
           (if i1 + offset < i2 then stg_lines ! (i1 + offset) else [],
            if j1 + offset < j2 then prd_lines ! (j1 + offset) else [],
            if i1 + offset < i2 then Some (i1 + offset + 1) else None,
            if j1 + offset < j2 then Some (j1 + offset + 1) else None))
       [0..<max (i2 - i1) (j2 - j1)]"
| "opcode_rows stg_lines prd_lines (Delete, i1, i2, j1, j2) =
     map (\<lambda>s_idx. (stg_lines ! s_idx, [], Some (s_idx + 1), None)) [i1..<i2]"
| "opcode_rows stg_lines prd_lines (Insert, i1, i2, j1, j2) =
     map (\<lambda>p_idx. ([], prd_lines ! p_idx, None, Some (p_idx + 1))) [j1..<j2]"

lemma for_each_map: "(\<And>x. x \<in> set xs \<Longrightarrow> f x = Inr (g x)) \<Longrightarrow> for_each f xs = Inr (map g xs)"
  by (induction xs) auto

lemma align_opcode_rows:
  assumes "i2 \<le> length stg_lines" "j2 \<le> length prd_lines"
  shows "align_opcode stg_lines prd_lines (tag, i1, i2, j1, j2)
       = Inr (opcode_rows stg_lines prd_lines (tag, i1, i2, j1, j2))"
proof (cases tag)
  case Replace
  show ?thesis unfolding Replace align_opcode.simps opcode_rows.simps Let_def
    by (rule for_each_map) (use assms in \<open>auto simp: getitem_def\<close>)
next
  case Delete
  show ?thesis unfolding Delete align_opcode.simps opcode_rows.simps
    by (rule for_each_map) (use assms in \<open>auto simp: getitem_def\<close>)
next
  case Insert
  show ?thesis unfolding Insert align_opcode.simps opcode_rows.simps
    by (rule for_each_map) (use assms in \<open>auto simp: getitem_def\<close>)
next
  case Equal
  have "a < length stg_lines \<and> b < length prd_lines" if "(a, b) \<in> set (zip [i1..<i2] [j1..<j2])" for a b
    using set_zip_leftD[OF that] set_zip_rightD[OF that] assms by simp
  then show ?thesis unfolding Equal align_opcode.simps opcode_rows.simps
    by (intro for_each_map) (auto simp: getitem_def)
qed

lemma align_opcodes_rows:
  assumes "tiles ops i j la lb" "la \<le> length stg_lines" "lb \<le> length prd_lines"
  shows "align_opcodes stg_lines prd_lines ops aligned
       = Inr (aligned @ concat (map (opcode_rows stg_lines prd_lines) ops))"
  using assms(1)
proof (induction ops arbitrary: i j aligned)
  case Nil
  then show ?case by simp
next
  case (Cons opc ops)
  obtain tag i1 i2 j1 j2 where opc: "opc = (tag, i1, i2, j1, j2)" by (cases opc) auto
  from Cons.prems opc have t: "tiles ops i2 j2 la lb" by simp
  from tiles_le[OF t] assms(2,3) have "i2 \<le> length stg_lines" "j2 \<le> length prd_lines" by auto
  from align_opcode_rows[OF this] Cons.IH[OF t] show ?case
    by (simp add: opc)
qed

lemma align_logs_rows:
  "align_logs a b = Inr (concat (map (opcode_rows a b) (get_opcodes a b)))"
  unfolding align_logs_def
  using align_opcodes_rows[OF get_opcodes_tiles[of a b], of a b "[]"] by simp

text \<open>The staged side and the production side of an alignment: the texts that carry a line number.\<close>

fun stg_side :: "line_pair list \<Rightarrow> (pystr \<times> nat) list" where
  "stg_side [] = []"
| "stg_side ((stg_line, prd_line, Some stg_no, prd_no) # rows) = (stg_line, stg_no) # stg_side rows"
| "stg_side ((stg_line, prd_line, None, prd_no) # rows) = stg_side rows"

fun prd_side :: "line_pair list \<Rightarrow> (pystr \<times> nat) list" where
  "prd_side [] = []"
| "prd_side ((stg_line, prd_line, stg_no, Some prd_no) # rows) = (prd_line, prd_no) # prd_side rows"
| "prd_side ((stg_line, prd_line, stg_no, None) # rows) = prd_side rows"

lemma stg_side_append: "stg_side (xs @ ys) = stg_side xs @ stg_side ys"
  by (induction xs rule: stg_side.induct) auto

lemma prd_side_append: "prd_side (xs @ ys) = prd_side xs @ prd_side ys"
  by (induction xs rule: prd_side.induct) auto

definition numbered :: "pystr list \<Rightarrow> nat \<Rightarrow> nat \<Rightarrow> (pystr \<times> nat) list" where
  "numbered xs i i' = map (\<lambda>n. (xs ! n, n + 1)) [i..<i']"

lemma numbered_append: "i \<le> m \<Longrightarrow> m \<le> i' \<Longrightarrow> numbered xs i m @ numbered xs m i' = numbered xs i i'"
proof -
  assume "i \<le> m" "m \<le> i'"
  then obtain k where "i' = m + k" using le_Suc_ex by blast
  with \<open>i \<le> m\<close> show ?thesis
    by (simp add: numbered_def upt_add_eq_append[of i m k])
qed

lemma numbered_all: "numbered xs 0 (length xs) = zip xs [1..<Suc (length xs)]"
  by (rule nth_equalityI) (auto simp: numbered_def simp del: upt_Suc)

lemma stg_side_replace:
  "stg_side (map (\<lambda>offset.
           (if i1 + offset < i2 then stg ! (i1 + offset) else [],
            if j1 + offset < j2 then prd ! (j1 + offset) else [],
            if i1 + offset < i2 then Some (i1 + offset + 1) else None,
            if j1 + offset < j2 then Some (j1 + offset + 1) else None)) [0..<k])
   = numbered stg i1 (min (i1 + k) i2)"
proof (induction k)
  case 0
  then show ?case by (simp add: numbered_def)
next
  case (Suc k)
  show ?case
  proof (cases "i1 + k < i2")
    case True
    then have "min (i1 + Suc k) i2 = Suc (i1 + k)" "min (i1 + k) i2 = i1 + k" by auto
    with Suc True show ?thesis by (simp add: stg_side_append numbered_def)
  next
    case False
    then have "min (i1 + Suc k) i2 = min (i1 + k) i2" by auto
    with Suc False show ?thesis by (simp add: stg_side_append)
  qed
qed

lemma prd_side_replace:
  "prd_side (map (\<lambda>offset.
           (if i1 + offset < i2 then stg ! (i1 + offset) else [],
            if j1 + offset < j2 then prd ! (j1 + offset) else [],
            if i1 + offset < i2 then Some (i1 + offset + 1) else None,
            if j1 + offset < j2 then Some (j1 + offset + 1) else None)) [0..<k])
   = numbered prd j1 (min (j1 + k) j2)"
proof (induction k)
  case 0
  then show ?case by (simp add: numbered_def)
next
  case (Suc k)
  show ?case
  proof (cases "j1 + k < j2")
    case True
    then have "min (j1 + Suc k) j2 = Suc (j1 + k)" "min (j1 + k) j2 = j1 + k" by auto
    with Suc True show ?thesis by (simp add: prd_side_append numbered_def)
  next
    case False
    then have "min (j1 + Suc k) j2 = min (j1 + k) j2" by auto
    with Suc False show ?thesis by (simp add: prd_side_append)
  qed
qed

lemma sides_equal:
  "length xs = length ys \<Longrightarrow>
   stg_side (map (\<lambda>(s_idx, p_idx). (stg ! s_idx, prd ! p_idx, Some (s_idx + 1), Some (p_idx + 1))) (zip xs ys))
     = map (\<lambda>n. (stg ! n, n + 1)) xs
 \<and> prd_side (map (\<lambda>(s_idx, p_idx). (stg ! s_idx, prd ! p_idx, Some (s_idx + 1), Some (p_idx + 1))) (zip xs ys))
     = map (\<lambda>n. (prd ! n, n + 1)) ys"
  by (induction xs ys rule: list_induct2) auto

lemma sides_delete:
  "stg_side (map (\<lambda>s_idx. (stg ! s_idx, [], Some (s_idx + 1), None)) xs) = map (\<lambda>n. (stg ! n, n + 1)) xs
 \<and> prd_side (map (\<lambda>s_idx. (stg ! s_idx, [], Some (s_idx + 1), None)) xs) = []"
  by (induction xs) auto

lemma sides_insert:
  "stg_side (map (\<lambda>p_idx. ([], prd ! p_idx, None, Some (p_idx + 1))) xs) = []
 \<and> prd_side (map (\<lambda>p_idx. ([], prd ! p_idx, None, Some (p_idx + 1))) xs) = map (\<lambda>n. (prd ! n, n + 1)) xs"
  by (induction xs) auto

lemma opcode_rows_sides:
  assumes "wf_opcode (tag, i1, i2, j1, j2)"
  shows "stg_side (opcode_rows stg prd (tag, i1, i2, j1, j2)) = numbered stg i1 i2
       \<and> prd_side (opcode_rows stg prd (tag, i1, i2, j1, j2)) = numbered prd j1 j2"
proof (cases tag)
  case Replace
  with assms have "min (i1 + max (i2 - i1) (j2 - j1)) i2 = i2" "min (j1 + max (i2 - i1) (j2 - j1)) j2 = j2"
    by auto
  then show ?thesis
    unfolding Replace opcode_rows.simps stg_side_replace prd_side_replace by simp
next
  case Delete
  with assms sides_delete[of stg "[i1..<i2]"] show ?thesis by (simp add: numbered_def)
next
  case Insert
  with assms sides_insert[of prd "[j1..<j2]"] show ?thesis by (simp add: numbered_def)
next
  case Equal
  with assms have "length [i1..<i2] = length [j1..<j2]" by simp
  from sides_equal[OF this] Equal show ?thesis by (simp add: numbered_def)
qed

lemma tiles_sides:
  assumes "tiles ops i j la lb"
  shows "stg_side (concat (map (opcode_rows stg prd) ops)) = numbered stg i la
       \<and> prd_side (concat (map (opcode_rows stg prd) ops)) = numbered prd j lb"
  using assms
proof (induction ops arbitrary: i j)
  case Nil
  then show ?case by (simp add: numbered_def)
next
  case (Cons opc ops)
  obtain tag i1 i2 j1 j2 where opc: "opc = (tag, i1, i2, j1, j2)" by (cases opc) auto
  from Cons.prems opc have t: "tiles ops i2 j2 la lb" and wf: "wf_opcode (tag, i, i2, j, j2)"
    and ij: "i1 = i" "j1 = j" by auto
  from wf have le1: "i \<le> i2" "j \<le> j2" by (cases tag; auto)+
  from tiles_le[OF t] have le2: "i2 \<le> la" "j2 \<le> lb" by auto
  show ?case
    using opcode_rows_sides[OF wf, of stg prd] Cons.IH[OF t]
      numbered_append[OF le1(1) le2(1), of stg] numbered_append[OF le1(2) le2(2), of prd]
    by (simp add: opc ij stg_side_append prd_side_append)
qed

lemma opcode_rows_inv:
  assumes "wf_opcode (tag, i1, i2, j1, j2)" "i2 \<le> length a" "j2 \<le> length b"
    and "(stg_line, prd_line, stg_no, prd_no) \<in> set (opcode_rows a b (tag, i1, i2, j1, j2))"
  shows "(stg_no \<noteq> None \<or> prd_no \<noteq> None)
       \<and> (case stg_no of Some n \<Rightarrow> 1 \<le> n \<and> n \<le> length a \<and> stg_line = a ! (n - 1) | None \<Rightarrow> stg_line = [])
       \<and> (case prd_no of Some n \<Rightarrow> 1 \<le> n \<and> n \<le> length b \<and> prd_line = b ! (n - 1) | None \<Rightarrow> prd_line = [])"
proof (cases tag)
  case Replace
  with assms show ?thesis by (auto split: if_splits)
next
  case Delete
  with assms show ?thesis by auto
next
  case Insert
  with assms show ?thesis by auto
next
  case Equal
  with assms(4) obtain s p where sp: "(s, p) \<in> set (zip [i1..<i2] [j1..<j2])"
    "stg_line = a ! s" "prd_line = b ! p" "stg_no = Some (s + 1)" "prd_no = Some (p + 1)"
    by auto
  from set_zip_leftD[OF sp(1)] set_zip_rightD[OF sp(1)] assms(2,3) sp(2-) show ?thesis
    by auto
qed

lemma tiles_rows_inv:
  assumes "tiles ops i j la lb" "la \<le> length a" "lb \<le> length b"
    and "(stg_line, prd_line, stg_no, prd_no) \<in> set (concat (map (opcode_rows a b) ops))"
  shows "(stg_no \<noteq> None \<or> prd_no \<noteq> None)
       \<and> (case stg_no of Some n \<Rightarrow> 1 \<le> n \<and> n \<le> length a \<and> stg_line = a ! (n - 1) | None \<Rightarrow> stg_line = [])
       \<and> (case prd_no of Some n \<Rightarrow> 1 \<le> n \<and> n \<le> length b \<and> prd_line = b ! (n - 1) | None \<Rightarrow> prd_line = [])"
  using assms(1,4)
proof (induction ops arbitrary: i j)
  case Nil
  then show ?case by simp
next
  case (Cons opc ops)
  obtain tag i1 i2 j1 j2 where opc: "opc = (tag, i1, i2, j1, j2)" by (cases opc) auto
  from Cons.prems(1) opc have t: "tiles ops i2 j2 la lb" and wf: "wf_opcode (tag, i1, i2, j1, j2)"
    by auto
  from tiles_le[OF t] assms(2,3) have le: "i2 \<le> length a" "j2 \<le> length b" by auto
  from Cons.prems(2) opc consider
      "(stg_line, prd_line, stg_no, prd_no) \<in> set (opcode_rows a b (tag, i1, i2, j1, j2))"
    | "(stg_line, prd_line, stg_no, prd_no) \<in> set (concat (map (opcode_rows a b) ops))"
    by auto
  then show ?case
  proof cases
    case 1
    from opcode_rows_inv[OF wf le 1] show ?thesis .
  next
    case 2
    from Cons.IH[OF t 2] show ?thesis .
  qed
qed

section \<open>Properties of the sequence aligner\<close>

text \<open>
  C10.  For every pair of input sequences \<open>a\<close> and \<open>b\<close> the aligner returns an alignment;
  its rows that carry a staged line number are, in order, exactly the lines of \<open>a\<close> with the
  numbers \<open>1 .. len(a)\<close>, and its rows that carry a production line number are, in order,
  exactly the lines of \<open>b\<close> with the numbers \<open>1 .. len(b)\<close>: every source line appears
  exactly once.
\<close>

theorem align_logs_covers_each_line_once:
  "\<exists>rows. align_logs a b = Inr rows
        \<and> stg_side rows = zip a [1..<Suc (length a)]
        \<and> prd_side rows = zip b [1..<Suc (length b)]"
  using tiles_sides[OF get_opcodes_tiles[of a b], of a b]
  by (simp add: align_logs_rows numbered_all)

text \<open>
  C6, as the code has it.  Every row of an alignment carries at least one line number.  A
  line number on a side is present exactly when that side contributed a source line: it is
  then the 1-based position of the row's text in that side's input, and where it is absent
  the text is the empty string.  At least one of the two texts of a row is non-empty
  provided no input line is itself the empty string.
\<close>

theorem align_logs_line_pair_invariant:
  "\<exists>rows. align_logs a b = Inr rows \<and>
     (\<forall>(stg_line, prd_line, stg_no, prd_no)\<in>set rows.
        (stg_no \<noteq> None \<or> prd_no \<noteq> None)
      \<and> (case stg_no of Some n \<Rightarrow> 1 \<le> n \<and> n \<le> length a \<and> stg_line = a ! (n - 1)
          | None \<Rightarrow> stg_line = [])
      \<and> (case prd_no of Some n \<Rightarrow> 1 \<le> n \<and> n \<le> length b \<and> prd_line = b ! (n - 1)
          | None \<Rightarrow> prd_line = [])
      \<and> ([] \<notin> set a \<and> [] \<notin> set b \<longrightarrow> stg_line \<noteq> [] \<or> prd_line \<noteq> []))"
proof -
  let ?rows = "concat (map (opcode_rows a b) (get_opcodes a b))"
  have "(stg_no \<noteq> None \<or> prd_no \<noteq> None)
      \<and> (case stg_no of Some n \<Rightarrow> 1 \<le> n \<and> n \<le> length a \<and> stg_line = a ! (n - 1)
          | None \<Rightarrow> stg_line = [])
      \<and> (case prd_no of Some n \<Rightarrow> 1 \<le> n \<and> n \<le> length b \<and> prd_line = b ! (n - 1)
          | None \<Rightarrow> prd_line = [])
      \<and> ([] \<notin> set a \<and> [] \<notin> set b \<longrightarrow> stg_line \<noteq> [] \<or> prd_line \<noteq> [])"
    if r: "(stg_line, prd_line, stg_no, prd_no) \<in> set ?rows" for stg_line prd_line stg_no prd_no
  proof -
    note inv = tiles_rows_inv[OF get_opcodes_tiles[of a b] le_refl le_refl r]
    have "stg_line \<noteq> [] \<or> prd_line \<noteq> []" if ne: "[] \<notin> set a" "[] \<notin> set b"
    proof (cases stg_no)
      case (Some n)
      with inv have "n - 1 < length a" "stg_line = a ! (n - 1)" by auto
      with ne(1) show ?thesis by (metis nth_mem)
    next
      case None
      with inv obtain m where "prd_no = Some m" by auto
      with inv have "m - 1 < length b" "prd_line = b ! (m - 1)" by auto
      with ne(2) show ?thesis by (metis nth_mem)
    qed
    with inv show ?thesis by blast
  qed
  then show ?thesis
    by (intro exI[of _ ?rows] conjI align_logs_rows) blast
qed

theorem align_logs_line_pair_invariant_witness:
  "[] \<notin> set [ustr ''a'', ustr ''b''] \<and> [] \<notin> set [ustr ''a''] \<and>
   align_logs [ustr ''a'', ustr ''b''] [ustr ''a'']
     = Inr [(ustr ''a'', ustr ''a'', Some 1, Some 1), (ustr ''b'', [], Some 2, None)]"
proof -
  have e: "align_logs [ustr ''a'', ustr ''b''] [ustr ''a'']
     = Inr [(ustr ''a'', ustr ''a'', Some 1, Some 1), (ustr ''b'', [], Some 2, None)]"
    by code_simp
  have "[] \<notin> set [ustr ''a'', ustr ''b''] \<and> [] \<notin> set [ustr ''a'']"
    by (simp add: ustr_def)
  with e align_logs_line_pair_invariant[of "[ustr ''a'', ustr ''b'']" "[ustr ''a'']"]
  show ?thesis by simp
qed

theorem align_logs_blank_lines_counterexample:
  "align_logs [[]] [[]] = Inr [([], [], Some 1, Some 1)]"
  by code_simp

text \<open>
  C2.  Every replace run \<open>(i1, i2, j1, j2)\<close> among the opcodes of two input sequences
  contributes one contiguous segment of exactly \<open>max (i2 - i1) (j2 - j1)\<close> rows to the
  alignment, after the rows of the opcodes before it.  At offset \<open>k\<close> of the segment, a side
  that still has a line (\<open>i1 + k < i2\<close>, resp. \<open>j1 + k < j2\<close>) carries that source line and
  its 1-based number; a side that is exhausted carries the empty string and no number.
  Both ranges are non-empty and lie inside their inputs.
\<close>

theorem align_logs_replace_run:
  assumes "get_opcodes a b = pre @ (Replace, i1, i2, j1, j2) # post"
  shows "\<exists>before seg after.
           align_logs a b = Inr (before @ seg @ after)
         \<and> align_opcodes a b pre [] = Inr before
         \<and> length seg = max (i2 - i1) (j2 - j1)
         \<and> (\<forall>k<length seg. seg ! k =
               (if i1 + k < i2 then a ! (i1 + k) else [],
                if j1 + k < j2 then b ! (j1 + k) else [],
                if i1 + k < i2 then Some (i1 + k + 1) else None,
                if j1 + k < j2 then Some (j1 + k + 1) else None))
         \<and> i1 < i2 \<and> i2 \<le> length a \<and> j1 < j2 \<and> j2 \<le> length b"
proof -
  let ?before = "concat (map (opcode_rows a b) pre)"
  let ?seg = "opcode_rows a b (Replace, i1, i2, j1, j2)"
  let ?after = "concat (map (opcode_rows a b) post)"
  have t: "tiles (pre @ (Replace, i1, i2, j1, j2) # post) 0 0 (length a) (length b)"
    using get_opcodes_tiles[of a b] assms by simp
  then obtain i' j' where pre: "tiles pre 0 0 i' j'"
    and rest: "tiles ((Replace, i1, i2, j1, j2) # post) i' j' (length a) (length b)"
    unfolding tiles_append by blast
  from rest have wf: "i1 < i2" "j1 < j2" and post: "tiles post i2 j2 (length a) (length b)"
    by auto
  from tiles_le[OF post] have le: "i2 \<le> length a" "j2 \<le> length b" by auto
  from tiles_le[OF rest] have "i' \<le> length a" "j' \<le> length b" by auto
  from align_opcodes_rows[OF pre this, of "[]"]
  have b: "align_opcodes a b pre [] = Inr ?before" by simp
  have r: "align_logs a b = Inr (?before @ ?seg @ ?after)"
    by (simp add: align_logs_rows assms)
  have l: "length ?seg = max (i2 - i1) (j2 - j1)" by simp
  have n: "\<forall>k<length ?seg. ?seg ! k =
               (if i1 + k < i2 then a ! (i1 + k) else [],
                if j1 + k < j2 then b ! (j1 + k) else [],
                if i1 + k < i2 then Some (i1 + k + 1) else None,
                if j1 + k < j2 then Some (j1 + k + 1) else None)"
    by (simp del: upt_Suc)
  from r b l n wf le show ?thesis by blast
qed

theorem align_logs_replace_run_witness:
  "get_opcodes [ustr ''a'', ustr ''b'', ustr ''c'', ustr ''d''] [ustr ''a'', ustr ''x'', ustr ''d'']
     = [(Equal, 0, 1, 0, 1)] @ (Replace, 1, 3, 1, 2) # [(Equal, 3, 4, 2, 3)]
   \<and> align_logs [ustr ''a'', ustr ''b'', ustr ''c'', ustr ''d''] [ustr ''a'', ustr ''x'', ustr ''d'']
     = Inr ([(ustr ''a'', ustr ''a'', Some 1, Some 1)]
          @ [(ustr ''b'', ustr ''x'', Some 2, Some 2), (ustr ''c'', [], Some 3, None)]
          @ [(ustr ''d'', ustr ''d'', Some 4, Some 3)])"
proof -
  have o: "get_opcodes [ustr ''a'', ustr ''b'', ustr ''c'', ustr ''d''] [ustr ''a'', ustr ''x'', ustr ''d'']
     = [(Equal, 0, 1, 0, 1)] @ (Replace, 1, 3, 1, 2) # [(Equal, 3, 4, 2, 3)]"
    by code_simp
  have r: "align_logs [ustr ''a'', ustr ''b'', ustr ''c'', ustr ''d''] [ustr ''a'', ustr ''x'', ustr ''d'']
     = Inr ([(ustr ''a'', ustr ''a'', Some 1, Some 1)]
          @ [(ustr ''b'', ustr ''x'', Some 2, Some 2), (ustr ''c'', [], Some 3, None)]
          @ [(ustr ''d'', ustr ''d'', Some 4, Some 3)])"
    by code_simp
  from align_logs_replace_run[OF o] o r show ?thesis by blast
qed

subsection \<open>Matching a sequence against itself\<close>

lemma chain_b_snoc:
  "chain_b (b @ [x]) = (chain_b b)(x \<mapsto> (case chain_b b x of None \<Rightarrow> [] | Some indices \<Rightarrow> indices) @ [length b])"
  by (simp add: chain_b_def enumerate_append_eq)

lemma chain_b_eq:
  "chain_b b elt = (if elt \<in> set b then Some (filter (\<lambda>j. b ! j = elt) [0..<length b]) else None)"
proof (induction b arbitrary: elt rule: rev_induct)
  case Nil
  then show ?case by (simp add: chain_b_def)
next
  case (snoc x xs)
  have f: "filter (\<lambda>j. (xs @ [x]) ! j = e) [0..<length xs] = filter (\<lambda>j. xs ! j = e) [0..<length xs]" for e
    by (rule filter_cong) (auto simp: nth_append)
  have g: "filter (\<lambda>j. xs ! j = e) [0..<length xs] = []" if "e \<notin> set xs" for e
    using that by (auto simp: filter_empty_conv)
  show ?case
    unfolding chain_b_snoc
    by (auto simp: snoc.IH f g)
qed

lemma flm_inner_append:
  "\<forall>j\<in>set js1. j < bhi \<Longrightarrow>
   flm_inner blo bhi i prev (js1 @ js2) st = flm_inner blo bhi i prev js2 (flm_inner blo bhi i prev js1 st)"
proof (induction js1 arbitrary: st)
  case Nil
  then show ?case by simp
next
  case (Cons j js1)
  obtain new besti bestj bestsize where st: "st = (new, besti, bestj, bestsize)"
    by (cases st) auto
  from Cons.prems have "\<not> bhi \<le> j" "\<forall>j\<in>set js1. j < bhi" by auto
  with Cons.IH show ?case by (simp add: st Let_def)
qed

lemma flm_inner_keeps_best:
  "\<forall>j\<in>set js. j2lenget prev j + 1 \<le> bestsize \<Longrightarrow>
   snd (flm_inner blo bhi i prev js (new, besti, bestj, bestsize)) = (besti, bestj, bestsize)"
  by (induction js arbitrary: new) (auto simp: Let_def)

lemma flm_inner_fst:
  "\<forall>j\<in>set js. blo \<le> j \<and> j < bhi \<Longrightarrow>
   fst (flm_inner blo bhi i prev js (new, best)) k
     = (if k \<in> set js then Some (j2lenget prev k + 1) else new k)"
proof (induction js arbitrary: new best)
  case Nil
  then show ?case by simp
next
  case (Cons j js)
  obtain besti bestj bestsize where best: "best = (besti, bestj, bestsize)" by (cases best) auto
  from Cons.prems have j: "\<not> j < blo" "\<not> bhi \<le> j" and js: "\<forall>j\<in>set js. blo \<le> j \<and> j < bhi"
    by auto
  show ?case
    using Cons.IH[OF js] j by (auto simp: best Let_def)
qed

lemma j2lenget_le:
  assumes "row_inv 0 0 bhi i prev"
  shows "j2lenget prev j \<le> i \<and> j2lenget prev j \<le> j"
proof (cases "j = 0")
  case True
  then show ?thesis by (simp add: j2lenget_def)
next
  case False
  show ?thesis
  proof (cases "prev (j - 1)")
    case None
    with False show ?thesis by (simp add: j2lenget_def)
  next
    case (Some k)
    with assms have "k \<le> i \<and> k \<le> j - 1 + 1" unfolding row_inv_def by fastforce
    with False Some show ?thesis by (simp add: j2lenget_def)
  qed
qed

lemma flm_row_self:
  assumes i: "i < length a" and inv: "row_inv 0 0 (length a) i prev"
    and diag: "i = 0 \<or> prev (i - 1) = Some i"
  shows "snd (flm_row a (chain_b a) 0 (length a) (prev, 0, 0, i) i) = (0, 0, i + 1)
       \<and> fst (flm_row a (chain_b a) 0 (length a) (prev, 0, 0, i) i) i = Some (i + 1)"
proof -
  let ?n = "length a"
  let ?P = "\<lambda>j. a ! j = a ! i"
  define js1 where "js1 = filter ?P [0..<i]"
  define js2 where "js2 = filter ?P [Suc i..<?n]"
  have "[0..<i + (?n - i)] = [0..<i] @ [i..<i + (?n - i)]"
    by (rule upt_add_eq_append) simp
  moreover have "[i..<?n] = i # [Suc i..<?n]"
    using i by (simp add: upt_conv_Cons)
  ultimately have split: "[0..<?n] = [0..<i] @ [i] @ [Suc i..<?n]"
    using i by simp
  have js: "chain_b a (a ! i) = Some (js1 @ [i] @ js2)"
    using i by (subst chain_b_eq, subst split) (simp add: js1_def js2_def)
  have di: "j2lenget prev i = i"
    using diag by (auto simp: j2lenget_def)
  have r1: "\<forall>j\<in>set js1. j < ?n" using i by (auto simp: js1_def)
  have k1: "\<forall>j\<in>set js1. j2lenget prev j + 1 \<le> i"
  proof
    fix j assume "j \<in> set js1"
    then have "j < i" by (auto simp: js1_def)
    with j2lenget_le[OF inv, of j] show "j2lenget prev j + 1 \<le> i" by simp
  qed
  have k2: "\<forall>j\<in>set js2. j2lenget prev j + 1 \<le> i + 1"
    using j2lenget_le[OF inv] by auto
  obtain m1 where s1: "flm_inner 0 ?n i prev js1 (Map.empty, 0, 0, i) = (m1, 0, 0, i)"
    using flm_inner_keeps_best[OF k1, of 0 ?n i Map.empty 0 0]
    by (cases "flm_inner 0 ?n i prev js1 (Map.empty, 0, 0, i)") auto
  have s2: "flm_inner 0 ?n i prev [i] (m1, 0, 0, i) = (m1(i \<mapsto> i + 1), 0, 0, i + 1)"
    using i by (simp add: di Let_def)
  have s3: "snd (flm_inner 0 ?n i prev js2 (m1(i \<mapsto> i + 1), 0, 0, i + 1)) = (0, 0, i + 1)"
    by (rule flm_inner_keeps_best[OF k2])
  have whole: "flm_inner 0 ?n i prev (js1 @ [i] @ js2) (Map.empty, 0, 0, i)
      = flm_inner 0 ?n i prev js2 (m1(i \<mapsto> i + 1), 0, 0, i + 1)"
  proof -
    have w1: "flm_inner 0 ?n i prev (js1 @ [i] @ js2) (Map.empty, 0, 0, i)
        = flm_inner 0 ?n i prev ([i] @ js2) (flm_inner 0 ?n i prev js1 (Map.empty, 0, 0, i))"
      by (rule flm_inner_append[OF r1])
    have w2: "flm_inner 0 ?n i prev ([i] @ js2) (m1, 0, 0, i)
        = flm_inner 0 ?n i prev js2 (flm_inner 0 ?n i prev [i] (m1, 0, 0, i))"
      by (rule flm_inner_append) (use i in simp)
    show ?thesis by (simp only: w1 s1 w2 s2)
  qed
  have rng: "\<forall>j\<in>set (js1 @ [i] @ js2). 0 \<le> j \<and> j < ?n"
    using i by (auto simp: js1_def js2_def)
  have "fst (flm_inner 0 ?n i prev (js1 @ [i] @ js2) (Map.empty, 0, 0, i)) i = Some (i + 1)"
    using flm_inner_fst[OF rng, of i prev Map.empty "(0, 0, i)" i] di by simp
  with whole s3 show ?thesis
    by (simp add: flm_row_def js)
qed

lemma flm_rows_self:
  "i \<le> length a \<Longrightarrow>
   snd (foldl (flm_row a (chain_b a) 0 (length a)) (Map.empty, 0, 0, 0) [0..<i]) = (0, 0, i)
 \<and> (i = 0 \<or> fst (foldl (flm_row a (chain_b a) 0 (length a)) (Map.empty, 0, 0, 0) [0..<i]) (i - 1) = Some i)"
proof (induction i)
  case 0
  then show ?case by simp
next
  case (Suc i)
  let ?st = "foldl (flm_row a (chain_b a) 0 (length a)) (Map.empty, 0, 0, 0) [0..<i]"
  from Suc have ih: "snd ?st = (0, 0, i)" "i = 0 \<or> fst ?st (i - 1) = Some i" and i: "i < length a"
    by auto
  have st: "?st = (fst ?st, 0, 0, i)" using ih(1) by (metis prod.collapse)
  have inv: "row_inv 0 0 (length a) i (fst ?st)"
    using flm_rows_inv[of 0 i 0 "length a" a "chain_b a"] by simp
  from flm_row_self[OF i inv ih(2)] st
  have "snd (flm_row a (chain_b a) 0 (length a) ?st i) = (0, 0, i + 1)"
    "fst (flm_row a (chain_b a) 0 (length a) ?st i) i = Some (i + 1)"
    by auto
  then show ?case by simp
qed

lemma find_longest_match_self:
  "find_longest_match a a 0 (length a) 0 (length a) = (0, 0, length a)"
proof -
  have "snd (foldl (flm_row a (chain_b a) 0 (length a)) (Map.empty, 0, 0, 0) [0..<length a])
      = (0, 0, length a)"
    using flm_rows_self[of "length a" a] by simp
  moreover have "extend_left junk a a 0 0 (0, 0, length a) = (0, 0, length a)" for junk
    by (subst extend_left.simps) simp
  moreover have "extend_right junk a a (length a) (length a) (0, 0, length a) = (0, 0, length a)" for junk
    by (subst extend_right.simps) simp
  ultimately show ?thesis by (simp add: find_longest_match_def)
qed

lemma get_opcodes_self:
  "get_opcodes a a = (if a = [] then [] else [(Equal, 0, length a, 0, length a)])"
proof (cases "a = []")
  case True
  have "gmb_loop a a [(0, length a, 0, length a)] [] = []"
    using True by (simp add: gmb_loop.simps find_longest_match_self[of "[]", simplified])
  with True show ?thesis
    by (simp add: get_opcodes_def get_matching_blocks_def)
next
  case False
  have "gmb_loop a a [(0, length a, 0, length a)] [] = [(0, 0, length a)]"
    using False by (simp add: gmb_loop.simps find_longest_match_self)
  with False show ?thesis
    by (simp add: get_opcodes_def get_matching_blocks_def Let_def)
qed

text \<open>
  C7.  Aligning a sequence \<open>a\<close> with itself yields exactly \<open>len(a)\<close> rows, one per line and
  in order; both texts of a row are that line, and both line numbers are its 1-based
  position in \<open>a\<close>.
\<close>

theorem align_logs_self:
  "align_logs a a = Inr (map (\<lambda>(line, n). (line, line, Some n, Some n)) (zip a [1..<Suc (length a)]))"
proof -
  have "concat (map (opcode_rows a a) (get_opcodes a a))
      = map (\<lambda>n. (a ! n, a ! n, Some (n + 1), Some (n + 1))) [0..<length a]"
    by (simp add: get_opcodes_self zip_same_conv_map)
  also have "\<dots> = map (\<lambda>(line, n). (line, line, Some n, Some n)) (numbered a 0 (length a))"
    by (simp add: numbered_def)
  finally show ?thesis by (simp add: align_logs_rows numbered_all)
qed

section \<open>Data model of the workbook (\<^verbatim>\<open>xlsx_writer.py\<close>)\<close>

text \<open>
  The dataclasses \<^verbatim>\<open>CellValue\<close> and \<^verbatim>\<open>SheetData\<close>.  \<^verbatim>\<open>value\<close>, \<^verbatim>\<open>name\<close> and \<^verbatim>\<open>rows\<close> are
  written \<open>cell_value\<close>, \<open>sheet_name\<close> and \<open>sheet_rows\<close>.  \<open>empty_cell\<close> is \<^verbatim>\<open>CellValue()\<close>
  and \<open>text_cell v\<close> is \<^verbatim>\<open>CellValue(value=v)\<close>.
\<close>

record CellValue =
  cell_value :: pystr
  formula :: "pystr option"
  data_type :: "pystr option"

record SheetData =
  sheet_name :: pystr
  sheet_rows :: "CellValue list list"

definition empty_cell :: CellValue where
  "empty_cell = \<lparr>cell_value = [], formula = None, data_type = None\<rparr>"

definition text_cell :: "pystr \<Rightarrow> CellValue" where
  "text_cell v = \<lparr>cell_value = v, formula = None, data_type = None\<rparr>"

section \<open>Decimal numerals\<close>

text \<open>\<^verbatim>\<open>str(n)\<close> and \<^verbatim>\<open>f"{n}"\<close> for a non-negative integer: its decimal digits.\<close>

function str_nat :: "nat \<Rightarrow> pystr" where
  "str_nat n = (if n < 10 then [48 + n] else str_nat (n div 10) @ [48 + n mod 10])"
  by pat_completeness auto
termination
  by (relation "measure id") auto

declare str_nat.simps [simp del]

section \<open>The report assembler (\<^verbatim>\<open>log_to_excel.py\<close>)\<close>

record LogPair =
  base_name :: pystr
  stg_host :: pystr
  prd_host :: pystr
  stg_path :: pystr
  prd_path :: pystr

definition SHEET_NAME_FORMULA :: pystr where
  "SHEET_NAME_FORMULA =
     ustr ''RIGHT(CELL(\"filename\",A1),LEN(CELL(\"filename\",A1))-FIND(\"]\",CELL(\"filename\",A1)))''"

text \<open>
  The Japanese literals of the header, as code points: the project title, the test title,
  ``target server'', ``remarks'', ``current server ('', ``)'', ``difference'', ``new
  platform ('' and the annotation ``difference found''.
\<close>

definition TITLE_PROJECT :: pystr where
  "TITLE_PROJECT = ustr ''InfoOne'' @ [0x5ef6, 0x547d, 0x30d7, 0x30ed, 0x30b8, 0x30a7, 0x30af, 0x30c8]"

definition TITLE_TEST :: pystr where
  "TITLE_TEST = [0x30aa, 0x30f3, 0x30d7, 0x30ec, 0x5358, 0x4f53, 0x30c6, 0x30b9, 0x30c8, 0xff08]
     @ ustr ''NewSTG'' @ [0x57fa, 0x76e4, 0xff09]"

definition LABEL_TARGET_SERVER :: pystr where
  "LABEL_TARGET_SERVER = [0x5bfe, 0x8c61, 0x30b5, 0x30fc, 0x30d0]"

definition LABEL_REMARKS :: pystr where
  "LABEL_REMARKS = [0x5099, 0x8003]"

definition LABEL_CURRENT_SERVER :: pystr where
  "LABEL_CURRENT_SERVER = [0x73fe, 0x884c, 0x30b5, 0x30fc, 0x30d0, 0xff08]"

definition LABEL_CLOSE :: pystr where
  "LABEL_CLOSE = [0xff09]"

definition LABEL_DIFFERENCE :: pystr where
  "LABEL_DIFFERENCE = [0x5dee, 0x5206, 0x6709, 0x7121]"

definition LABEL_NEW_PLATFORM :: pystr where
  "LABEL_NEW_PLATFORM = [0x65b0, 0x57fa, 0x76e4, 0xff08]"

definition NOTE_DIFFERENCE :: pystr where
  "NOTE_DIFFERENCE = [0x5dee, 0x7570, 0x3042, 0x308a]"

definition build_header_rows :: "LogPair \<Rightarrow> CellValue list list" where
  "build_header_rows pair =
     [ [text_cell TITLE_PROJECT, empty_cell, empty_cell, empty_cell, empty_cell],
       [text_cell TITLE_TEST, empty_cell, empty_cell, empty_cell, empty_cell],
       [empty_cell, empty_cell, empty_cell, empty_cell, empty_cell],
       [empty_cell, text_cell LABEL_TARGET_SERVER, text_cell LABEL_REMARKS, empty_cell, empty_cell],
       [empty_cell,
        \<lparr>cell_value = [], formula = Some SHEET_NAME_FORMULA, data_type = Some (ustr ''str'')\<rparr>,
        empty_cell, empty_cell, empty_cell],
       [empty_cell, empty_cell, empty_cell, empty_cell, empty_cell],
       [empty_cell,
        text_cell (LABEL_CURRENT_SERVER @ stg_host pair @ LABEL_CLOSE),
        text_cell LABEL_DIFFERENCE,
        text_cell (LABEL_NEW_PLATFORM @ prd_host pair @ LABEL_CLOSE),
        text_cell LABEL_REMARKS] ]"

text \<open>The loop of \<^verbatim>\<open>_build_rows_for_pair\<close> over the aligned rows; the state is \<open>rows\<close> and \<open>current_row\<close>.\<close>

fun rows_loop :: "line_pair list \<Rightarrow> CellValue list list \<Rightarrow> nat \<Rightarrow> CellValue list list" where
  "rows_loop [] rows current_row = rows"
| "rows_loop ((stg_line, prd_line, unused_indices) # aligned) rows current_row =
     (let match_flag = (if stg_line = prd_line then ustr ''1'' else ustr ''0'');
          note = (if match_flag = ustr ''1'' then [] else NOTE_DIFFERENCE)
      in rows_loop aligned
           (rows @
            [[empty_cell,
              text_cell stg_line,
              \<lparr>cell_value = match_flag,
               formula = Some (ustr ''B'' @ str_nat current_row @ ustr ''=D'' @ str_nat current_row),
               data_type = Some (ustr ''b'')\<rparr>,
              text_cell prd_line,
              text_cell note]])
           (current_row + 1))"

section \<open>XML documents\<close>

text \<open>
  The writer builds the markup of every part as text, and the reader hands the bytes of a
  part to \<^verbatim>\<open>xml.etree.ElementTree.fromstring\<close> and works on the element tree it returns.

  A part is modelled as its markup with the nesting of the elements resolved: an element
  of the markup is its name as written, the text of its start tag after the name (the
  attributes, as written), the character data that follows its start tag (as written),
  and its child elements.  What the writer puts into these texts (escaped or not) and
  what the parser makes of them (references, line ends, characters that XML does not
  allow, quotation marks that end an attribute value) is part of the model.  The white
  space between elements, which no function of the program reads, is not represented, and
  the text of a start tag is taken to end where the writer ends it.  Encoding the text as
  UTF-8 is not modelled.
\<close>

datatype markup =
  Markup (m_name: pystr) (m_attrs: pystr) (m_text: pystr) (m_children: "markup list")

text \<open>The bytes of a part: markup, or something \<^verbatim>\<open>fromstring\<close> rejects with \<^verbatim>\<open>ParseError\<close>.\<close>

datatype document = Xml markup | NotXml

text \<open>
  The element tree: qualified tags and attribute names are pairs of namespace and local
  name (ElementTree's \<^verbatim>\<open>{namespace}local\<close>), \<open>elem_text\<close> is \<^verbatim>\<open>el.text\<close> (\<open>None\<close> for an element
  without character data).
\<close>

type_synonym qname = "pystr \<times> pystr"

datatype element =
  Element (elem_tag: qname) (elem_attrib: "(qname \<times> pystr) list") (elem_text: "pystr option")
    (elem_children: "element list")

subsection \<open>Character data and attribute values\<close>

text \<open>The characters that XML 1.0 allows in a document.\<close>

definition xml_char :: "nat \<Rightarrow> bool" where
  "xml_char c =
     (if c < 128 then 32 \<le> c \<or> c = 9 \<or> c = 10 \<or> c = 13
      else if c < 0xD800 then True
      else if c < 0xE000 then False
      else if c < 0xFFFE then True
      else 0x10000 \<le> c \<and> c \<le> 0x10FFFF)"

text \<open>
  A reference \<^verbatim>\<open>&name;\<close>: one of the five predefined entities, or a character reference
  \<^verbatim>\<open>&#ddd;\<close> or \<^verbatim>\<open>&#xhhh;\<close> to a character that XML allows.
\<close>

definition digit_value :: "nat \<Rightarrow> nat option" where
  "digit_value c =
     (if 48 \<le> c \<and> c \<le> 57 then Some (c - 48)
      else if 97 \<le> c \<and> c \<le> 102 then Some (c - 87)
      else if 65 \<le> c \<and> c \<le> 70 then Some (c - 55)
      else None)"

fun number :: "nat \<Rightarrow> pystr \<Rightarrow> nat \<Rightarrow> nat option" where
  "number base [] acc = Some acc"
| "number base (c # cs) acc =
     (case digit_value c of
        None \<Rightarrow> None
      | Some d \<Rightarrow> if d < base then number base cs (acc * base + d) else None)"

definition char_ref :: "nat \<Rightarrow> pystr \<Rightarrow> nat option" where
  "char_ref base ds =
     (if ds = [] then None
      else case number base ds 0 of
             None \<Rightarrow> None
           | Some n \<Rightarrow> if xml_char n then Some n else None)"

definition reference :: "pystr \<Rightarrow> nat option" where
  "reference r =
     (if r = ustr ''amp'' then Some 38
      else if r = ustr ''lt'' then Some 60
      else if r = ustr ''gt'' then Some 62
      else if r = ustr ''quot'' then Some 34
      else if r = ustr ''apos'' then Some 39
      else case r of
             [] \<Rightarrow> None
           | c # ds \<Rightarrow>
               if c \<noteq> 35 then None
               else (case ds of
                       [] \<Rightarrow> None
                     | d # hs \<Rightarrow> if d = 120 then char_ref 16 hs else char_ref 10 ds))"

text \<open>
  The parser's reading of character data (\<open>att = False\<close>) and of an attribute value
  (\<open>att = True\<close>), one character at a time.  A character that XML does not allow, a \<^verbatim>\<open><\<close>
  and a \<^verbatim>\<open>&\<close> that does not start a reference are errors.  A carriage return, alone or
  followed by a line feed, is read as one line feed; in an attribute value a literal tab
  or line end is read as a space.  Characters given by reference are taken as they are.
\<close>

datatype scan_state = Plain | AfterCR | InRef pystr

fun push :: "nat \<Rightarrow> error + pystr \<Rightarrow> error + pystr" where
  "push c (Inl e) = Inl e"
| "push c (Inr s) = Inr (c # s)"

fun scan :: "bool \<Rightarrow> scan_state \<Rightarrow> pystr \<Rightarrow> error + pystr" where
  "scan att (InRef r) [] = Inl ParseError"
| "scan att st [] = Inr []"
| "scan att (InRef r) (c # cs) =
     (if c = 59
      then (case reference r of
              None \<Rightarrow> Inl ParseError
            | Some x \<Rightarrow> push x (scan att Plain cs))
      else scan att (InRef (r @ [c])) cs)"
| "scan att st (c # cs) =
     (if c = 38 then scan att (InRef []) cs
      else if c = 60 \<or> \<not> xml_char c then Inl ParseError
      else if c = 13 then push (if att then 32 else 10) (scan att AfterCR cs)
      else if c = 10 \<and> st = AfterCR then scan att Plain cs
      else push (if att \<and> (c = 9 \<or> c = 10) then 32 else c) (scan att Plain cs))"

text \<open>Character data must not contain the end mark \<^verbatim>\<open>]]>\<close> of a CDATA section.\<close>

fun has_cdata_end :: "pystr \<Rightarrow> bool" where
  "has_cdata_end (a # b # c # cs) = ((a = 93 \<and> b = 93 \<and> c = 62) \<or> has_cdata_end (b # c # cs))"
| "has_cdata_end cs = False"

definition chardata :: "pystr \<Rightarrow> error + pystr" where
  "chardata s = (if has_cdata_end s then Inl ParseError else scan False Plain s)"

definition attvalue :: "pystr \<Rightarrow> error + pystr" where
  "attvalue s = scan True Plain s"

subsection \<open>The attributes of a start tag\<close>

text \<open>
  The text of a start tag after the element's name: attributes \<^verbatim>\<open>name="value"\<close> or
  \<^verbatim>\<open>name='value'\<close>, each after white space.  A value ends at the next quotation mark of the
  kind that opened it.  Names are read as ASCII names; beyond ASCII every character counts
  as a name character.
\<close>

definition xml_space :: "nat \<Rightarrow> bool" where
  "xml_space c \<longleftrightarrow> c = 32 \<or> c = 9 \<or> c = 10 \<or> c = 13"

definition name_start :: "nat \<Rightarrow> bool" where
  "name_start c \<longleftrightarrow> (97 \<le> c \<and> c \<le> 122) \<or> (65 \<le> c \<and> c \<le> 90) \<or> c = 95 \<or> c = 58 \<or> 128 \<le> c"

definition name_char :: "nat \<Rightarrow> bool" where
  "name_char c \<longleftrightarrow> name_start c \<or> (48 \<le> c \<and> c \<le> 57) \<or> c = 45 \<or> c = 46"

datatype attr_state =
    Gap bool
  | AName pystr
  | AEq pystr
  | AQuote pystr
  | AValue pystr nat pystr

fun attributes :: "attr_state \<Rightarrow> pystr \<Rightarrow> (pystr \<times> pystr) list option" where
  "attributes (Gap sp) [] = Some []"
| "attributes st [] = None"
| "attributes (Gap sp) (c # cs) =
     (if xml_space c then attributes (Gap True) cs
      else if sp \<and> name_start c then attributes (AName [c]) cs
      else None)"
| "attributes (AName n) (c # cs) =
     (if name_char c then attributes (AName (n @ [c])) cs
      else if c = 61 then attributes (AQuote n) cs
      else if xml_space c then attributes (AEq n) cs
      else None)"
| "attributes (AEq n) (c # cs) =
     (if c = 61 then attributes (AQuote n) cs
      else if xml_space c then attributes (AEq n) cs
      else None)"
| "attributes (AQuote n) (c # cs) =
     (if c = 34 \<or> c = 39 then attributes (AValue n c []) cs
      else if xml_space c then attributes (AQuote n) cs
      else None)"
| "attributes (AValue n q v) (c # cs) =
     (if c = q
      then (case attributes (Gap False) cs of
              None \<Rightarrow> None
            | Some rest \<Rightarrow> Some ((n, v) # rest))
      else attributes (AValue n q (v @ [c])) cs)"

text \<open>The values of the attributes read; no name may occur twice.\<close>

fun attvalues :: "(pystr \<times> pystr) list \<Rightarrow> (pystr \<times> pystr) list option" where
  "attvalues [] = Some []"
| "attvalues ((n, raw) # rest) =
     (case attvalue raw of
        Inl e \<Rightarrow> None
      | Inr v \<Rightarrow> (case attvalues rest of None \<Rightarrow> None | Some vs \<Rightarrow> Some ((n, v) # vs)))"

definition start_tag :: "pystr \<Rightarrow> (pystr \<times> pystr) list option" where
  "start_tag s =
     (case attributes (Gap False) s of
        None \<Rightarrow> None
      | Some raw \<Rightarrow>
          if distinct (map fst raw) then attvalues raw else None)"

subsection \<open>Namespaces\<close>

definition NS_XML :: pystr where
  "NS_XML = ustr ''http://www.w3.org/XML/1998/namespace''"

text \<open>
  The namespaces in scope: the default namespace (the empty string for none) and the
  prefixes bound.  An attribute \<^verbatim>\<open>xmlns\<close> or \<^verbatim>\<open>xmlns:p\<close> of an element declares a namespace for
  the element and its descendants; the prefix \<^verbatim>\<open>xml\<close> is bound from the start.
\<close>

type_synonym namespaces = "pystr \<times> (pystr \<times> pystr) list"

text \<open>A name as a prefix, if it has one, and a local part.\<close>

definition split_name :: "pystr \<Rightarrow> (pystr option \<times> pystr) option" where
  "split_name n =
     (if 58 \<notin> set n then Some (None, n)
      else
        let pfx = takeWhile (\<lambda>c. c \<noteq> 58) n;
            lname = drop 1 (dropWhile (\<lambda>c. c \<noteq> 58) n)
        in if pfx = [] \<or> lname = [] \<or> 58 \<in> set lname \<or> \<not> name_start (hd lname) then None
           else Some (Some pfx, lname))"

fun declare_namespaces :: "(pystr \<times> pystr) list \<Rightarrow> namespaces \<Rightarrow> namespaces option" where
  "declare_namespaces [] ns = Some ns"
| "declare_namespaces ((n, v) # rest) ns =
     (if n = ustr ''xmlns'' then declare_namespaces rest (v, snd ns)
      else case split_name n of
             None \<Rightarrow> None
           | Some (None, lname) \<Rightarrow> declare_namespaces rest ns
           | Some (Some pfx, lname) \<Rightarrow>
               if pfx \<noteq> ustr ''xmlns'' then declare_namespaces rest ns
               else if lname = ustr ''xmlns'' \<or> lname = ustr ''xml'' \<or> v = [] then None
               else declare_namespaces rest (fst ns, (lname, v) # snd ns))"

definition lookup_prefix :: "namespaces \<Rightarrow> pystr \<Rightarrow> pystr option" where
  "lookup_prefix ns pfx = (if pfx = ustr ''xml'' then Some NS_XML else map_of (snd ns) pfx)"

definition element_name :: "namespaces \<Rightarrow> pystr \<Rightarrow> qname option" where
  "element_name ns n =
     (case split_name n of
        None \<Rightarrow> None
      | Some (None, lname) \<Rightarrow> Some (fst ns, lname)
      | Some (Some pfx, lname) \<Rightarrow>
          (case lookup_prefix ns pfx of None \<Rightarrow> None | Some uri \<Rightarrow> Some (uri, lname)))"

text \<open>The attributes that are not declarations of namespaces, with their qualified names.\<close>

fun attribute_names :: "namespaces \<Rightarrow> (pystr \<times> pystr) list \<Rightarrow> (qname \<times> pystr) list option" where
  "attribute_names ns [] = Some []"
| "attribute_names ns ((n, v) # rest) =
     (if n = ustr ''xmlns'' then attribute_names ns rest
      else case split_name n of
             None \<Rightarrow> None
           | Some (None, lname) \<Rightarrow>
               (case attribute_names ns rest of None \<Rightarrow> None | Some as \<Rightarrow> Some ((([], lname), v) # as))
           | Some (Some pfx, lname) \<Rightarrow>
               if pfx = ustr ''xmlns'' then attribute_names ns rest
               else (case lookup_prefix ns pfx of
                       None \<Rightarrow> None
                     | Some uri \<Rightarrow>
                         (case attribute_names ns rest of
                            None \<Rightarrow> None
                          | Some as \<Rightarrow> Some (((uri, lname), v) # as))))"

subsection \<open>\<^verbatim>\<open>fromstring\<close>\<close>

lemma for_each_cong [fundef_cong]:
  "xs = ys \<Longrightarrow> (\<And>x. x \<in> set ys \<Longrightarrow> f x = g x) \<Longrightarrow> for_each f xs = for_each g ys"
  by (induction ys arbitrary: xs) (auto split: sum.splits)

fun parse_element :: "namespaces \<Rightarrow> markup \<Rightarrow> error + element" where
  "parse_element ns (Markup name attrs text children) =
     (case start_tag attrs of
        None \<Rightarrow> Inl ParseError
      | Some attrs \<Rightarrow>
     (case declare_namespaces attrs ns of
        None \<Rightarrow> Inl ParseError
      | Some ns \<Rightarrow>
     (case element_name ns name of
        None \<Rightarrow> Inl ParseError
      | Some tag \<Rightarrow>
     (case attribute_names ns attrs of
        None \<Rightarrow> Inl ParseError
      | Some attrib \<Rightarrow>
          if \<not> distinct (map fst attrib) then Inl ParseError
          else
     (case chardata text of
        Inl e \<Rightarrow> Inl e
      | Inr text \<Rightarrow>
     (case for_each (parse_element ns) children of
        Inl e \<Rightarrow> Inl e
      | Inr children \<Rightarrow>
          Inr (Element tag attrib (if text = [] then None else Some text) children)))))))"

definition fromstring :: "document \<Rightarrow> error + element" where
  "fromstring d = (case d of Xml root \<Rightarrow> parse_element ([], []) root | NotXml \<Rightarrow> Inl ParseError)"

definition NS_MAIN :: pystr where
  "NS_MAIN = ustr ''http://schemas.openxmlformats.org/spreadsheetml/2006/main''"

definition NS_R :: pystr where
  "NS_R = ustr ''http://schemas.openxmlformats.org/officeDocument/2006/relationships''"

definition NS_PKG_REL :: pystr where
  "NS_PKG_REL = ustr ''http://schemas.openxmlformats.org/package/2006/relationships''"

definition NS_CONTENT_TYPES :: pystr where
  "NS_CONTENT_TYPES = ustr ''http://schemas.openxmlformats.org/package/2006/content-types''"

text \<open>An unqualified attribute name, and a tag in the spreadsheet namespace.\<close>

definition attr :: "string \<Rightarrow> qname" where
  "attr local = ([], ustr local)"

definition main_tag :: "string \<Rightarrow> qname" where
  "main_tag local = (NS_MAIN, ustr local)"

text \<open>
  The ElementTree queries the program uses: \<^verbatim>\<open>el.get(key)\<close>, \<^verbatim>\<open>el.findall(tag)\<close> and
  \<^verbatim>\<open>el.find(tag)\<close> (here \<open>find_child\<close>) over the children, and \<^verbatim>\<open>.//tag\<close> over all
  descendants in document order.
\<close>

definition get_attr :: "element \<Rightarrow> qname \<Rightarrow> pystr option" where
  "get_attr el key = map_of (elem_attrib el) key"

definition findall :: "element \<Rightarrow> qname \<Rightarrow> element list" where
  "findall el t = filter (\<lambda>c. elem_tag c = t) (elem_children el)"

definition find_child :: "element \<Rightarrow> qname \<Rightarrow> element option" where
  "find_child el t = (case findall el t of [] \<Rightarrow> None | c # _ \<Rightarrow> Some c)"

fun descendants :: "element \<Rightarrow> element list" where
  "descendants (Element t a x cs) = concat (map (\<lambda>c. c # descendants c) cs)"

definition findall_desc :: "element \<Rightarrow> qname \<Rightarrow> element list" where
  "findall_desc el t = filter (\<lambda>c. elem_tag c = t) (descendants el)"

definition find_desc :: "element \<Rightarrow> qname \<Rightarrow> element option" where
  "find_desc el t = (case findall_desc el t of [] \<Rightarrow> None | c # _ \<Rightarrow> Some c)"

section \<open>The archive encoder (\<^verbatim>\<open>xlsx_writer.py\<close>)\<close>

text \<open>
  \<^verbatim>\<open>_column_letter\<close>.  The loop appends the least significant letter first; the result is
  the reversed list.
\<close>

function column_letter_loop :: "nat \<Rightarrow> pystr \<Rightarrow> pystr" where
  "column_letter_loop index letters =
     (if index \<noteq> 0
      then column_letter_loop ((index - 1) div 26) (letters @ [65 + (index - 1) mod 26])
      else letters)"
  by pat_completeness auto
termination
  by (relation "measure fst") (auto simp: div_le_dividend le_imp_less_Suc)

declare column_letter_loop.simps [simp del]

definition column_letter :: "nat \<Rightarrow> error + pystr" where
  "column_letter index =
     (if index < 1 then Inl (ValueError (ustr ''Column index must be positive''))
      else Inr (rev (column_letter_loop index [])))"

text \<open>Python's truth value of a string and of an optional string.\<close>

definition truthy :: "pystr \<Rightarrow> bool" where
  "truthy s \<longleftrightarrow> s \<noteq> []"

definition truthy_opt :: "pystr option \<Rightarrow> bool" where
  "truthy_opt s \<longleftrightarrow> (case s of None \<Rightarrow> False | Some x \<Rightarrow> x \<noteq> [])"

text \<open>
  \<^verbatim>\<open>str.strip()\<close> removes the white space at both ends.  \<open>isspace\<close> holds for the code
  points for which \<^verbatim>\<open>str.isspace\<close> does: 9 to 13, 28 to 32, and beyond ASCII those listed.
\<close>

definition isspace :: "nat \<Rightarrow> bool" where
  "isspace c =
     (if c \<le> 32 then (9 \<le> c \<and> c \<le> 13) \<or> 28 \<le> c
      else if c < 0x85 then False
      else c = 0x85 \<or> c = 0xA0 \<or> c = 0x1680 \<or> (0x2000 \<le> c \<and> c \<le> 0x200A)
         \<or> c = 0x2028 \<or> c = 0x2029 \<or> c = 0x202F \<or> c = 0x205F \<or> c = 0x3000)"

fun lstrip :: "pystr \<Rightarrow> pystr" where
  "lstrip [] = []"
| "lstrip (c # cs) = (if isspace c then lstrip cs else c # cs)"

definition strip :: "pystr \<Rightarrow> pystr" where
  "strip s = rev (lstrip (rev (lstrip s)))"

text \<open>
  \<^verbatim>\<open>xml.sax.saxutils.escape\<close>: three calls of \<^verbatim>\<open>str.replace\<close>, for \<^verbatim>\<open>&\<close>, \<^verbatim>\<open>>\<close> and \<^verbatim>\<open><\<close> in this
  order.  \<open>replace old new s\<close> is \<^verbatim>\<open>s.replace(old, new)\<close> for a single character \<open>old\<close>.
\<close>

definition replace :: "nat \<Rightarrow> pystr \<Rightarrow> pystr \<Rightarrow> pystr" where
  "replace old new s = concat (map (\<lambda>c. if c = old then new else [c]) s)"

definition escape :: "pystr \<Rightarrow> pystr" where
  "escape data =
     (let data = replace 38 (ustr ''&amp;'') data;
          data = replace 62 (ustr ''&gt;'') data;
          data = replace 60 (ustr ''&lt;'') data
      in data)"

text \<open>\<^verbatim>\<open>sep.join(xs)\<close>, and the text \<^verbatim>\<open>name="value"\<close> of an attribute.\<close>

fun join :: "pystr \<Rightarrow> pystr list \<Rightarrow> pystr" where
  "join sep [] = []"
| "join sep [x] = x"
| "join sep (x # y # ys) = x @ sep @ join sep (y # ys)"

definition attribute :: "string \<Rightarrow> pystr \<Rightarrow> pystr" where
  "attribute name v = ustr name @ ustr ''=\"'' @ v @ ustr ''\"''"

text \<open>An element without character data whose start tag is the name and, each after a space, the attributes.\<close>

definition tag :: "string \<Rightarrow> pystr list \<Rightarrow> markup list \<Rightarrow> markup" where
  "tag name attrs children = Markup (ustr name) (concat (map (\<lambda>a. 32 # a) attrs)) [] children"

text \<open>
  One iteration of the loop over the cells of a row: the \<^verbatim>\<open>c\<close> element of a cell, or nothing
  for a cell without value and formula (\<^verbatim>\<open>continue\<close>).
\<close>

definition cell_xml :: "nat \<Rightarrow> nat \<times> CellValue \<Rightarrow> error + markup list" where
  "cell_xml row_index ic =
     (case ic of (col_index, cell) \<Rightarrow>
      if \<not> truthy (cell_value cell) \<and> \<not> truthy_opt (formula cell) then Inr []
      else
        case column_letter col_index of
          Inl e \<Rightarrow> Inl e
        | Inr letters \<Rightarrow>
            let cell_ref = letters @ str_nat row_index in
            if truthy_opt (formula cell) then
              let attrs = [attribute ''r'' cell_ref] @
                          (case data_type cell of
                             None \<Rightarrow> []
                           | Some t \<Rightarrow> if truthy t then [attribute ''t'' t] else [])
              in Inr [Markup (ustr ''c'') (ustr '' '' @ join (ustr '' '') attrs) []
                        ([Markup (ustr ''f'') [] (escape (case formula cell of None \<Rightarrow> [] | Some f \<Rightarrow> f)) []] @
                         (if truthy (cell_value cell)
                          then [Markup (ustr ''v'') [] (escape (cell_value cell)) []] else []))]
            else
              let value = cell_value cell;
                  escaped = replace 10 (ustr ''&#10;'') (escape value);
                  preserve = (if strip value \<noteq> value then ustr '' xml:space=\"preserve\"'' else [])
              in Inr [Markup (ustr ''c'')
                        (ustr '' '' @ attribute ''r'' cell_ref @ ustr '' t=\"inlineStr\"'') []
                        [Markup (ustr ''is'') [] [] [Markup (ustr ''t'') preserve escaped []]]])"

text \<open>One iteration of the loop over the rows: the \<^verbatim>\<open>row\<close> element.\<close>

definition row_xml :: "nat \<Rightarrow> nat \<times> CellValue list \<Rightarrow> error + markup" where
  "row_xml max_cols ir =
     (case ir of (row_index, row) \<Rightarrow>
      let has_values = list_ex (\<lambda>cell. truthy (cell_value cell) \<or> truthy_opt (formula cell)) row;
          attrs = [attribute ''r'' (str_nat row_index), attribute ''spans'' (ustr ''1:'' @ str_nat max_cols)]
      in if \<not> has_values then Inr (tag ''row'' attrs [])
         else case for_each (cell_xml row_index) (enumerate 1 row) of
                Inl e \<Rightarrow> Inl e
              | Inr cells \<Rightarrow> Inr (tag ''row'' attrs (concat cells)))"

definition build_sheet_xml :: "SheetData \<Rightarrow> error + document" where
  "build_sheet_xml sheet =
     (let max_cols = fold max (map length (sheet_rows sheet)) 0;
          max_cols = (if max_cols = 0 then 1 else max_cols)
      in case for_each (row_xml max_cols) (enumerate 1 (sheet_rows sheet)) of
           Inl e \<Rightarrow> Inl e
         | Inr rows \<Rightarrow>
             Inr (Xml (tag ''worksheet'' [attribute ''xmlns'' NS_MAIN]
                         [tag ''sheetData'' [] rows])))"

definition build_workbook_xml :: "pystr list \<Rightarrow> document" where
  "build_workbook_xml sheet_names =
     Xml (tag ''workbook'' [attribute ''xmlns'' NS_MAIN, attribute ''xmlns:r'' NS_R]
            [tag ''sheets'' []
               (map (\<lambda>(index, name).
                      let safe_name = escape name in
                      tag ''sheet''
                        [attribute ''name'' safe_name, attribute ''sheetId'' (str_nat index),
                         attribute ''r:id'' (ustr ''rId'' @ str_nat index)] [])
                  (enumerate 1 sheet_names))])"

definition build_content_types_xml :: "nat \<Rightarrow> document" where
  "build_content_types_xml sheet_count =
     Xml (tag ''Types'' [attribute ''xmlns'' NS_CONTENT_TYPES]
           ([tag ''Default''
               [attribute ''Extension'' (ustr ''rels''),
                attribute ''ContentType'' (ustr ''application/vnd.openxmlformats-package.relationships+xml'')]
               [],
             tag ''Default''
               [attribute ''Extension'' (ustr ''xml''), attribute ''ContentType'' (ustr ''application/xml'')]
               [],
             tag ''Override''
               [attribute ''PartName'' (ustr ''/xl/workbook.xml''),
                attribute ''ContentType''
                  (ustr ''application/vnd.openxmlformats-officedocument.spreadsheetml.sheet.main+xml'')]
               []]
            @ map (\<lambda>index.
                    tag ''Override''
                      [attribute ''PartName'' (ustr ''/xl/worksheets/sheet'' @ str_nat index @ ustr ''.xml''),
                       attribute ''ContentType''
                         (ustr ''application/vnd.openxmlformats-officedocument.spreadsheetml.worksheet+xml'')]
                      [])
                [1..<sheet_count + 1]
            @ [tag ''Override''
                 [attribute ''PartName'' (ustr ''/xl/styles.xml''),
                  attribute ''ContentType''
                    (ustr ''application/vnd.openxmlformats-officedocument.spreadsheetml.styles+xml'')]
                 []]))"

definition build_root_rels_xml :: document where
  "build_root_rels_xml =
     Xml (tag ''Relationships'' [attribute ''xmlns'' NS_PKG_REL]
            [tag ''Relationship''
               [attribute ''Id'' (ustr ''rId1''),
                attribute ''Type'' (NS_R @ ustr ''/officeDocument''),
                attribute ''Target'' (ustr ''xl/workbook.xml'')]
               []])"

definition build_workbook_rels_xml :: "nat \<Rightarrow> document" where
  "build_workbook_rels_xml sheet_count =
     Xml (tag ''Relationships'' [attribute ''xmlns'' NS_PKG_REL]
           (map (\<lambda>index.
                  tag ''Relationship''
                    [attribute ''Id'' (ustr ''rId'' @ str_nat index),
                     attribute ''Type'' (NS_R @ ustr ''/worksheet''),
                     attribute ''Target'' (ustr ''worksheets/sheet'' @ str_nat index @ ustr ''.xml'')]
                    [])
              [1..<sheet_count + 1]
            @ [tag ''Relationship''
                 [attribute ''Id'' (ustr ''rId'' @ str_nat (sheet_count + 1)),
                  attribute ''Type'' (NS_R @ ustr ''/styles''),
                  attribute ''Target'' (ustr ''styles.xml'')]
                 []]))"

definition build_styles_xml :: document where
  "build_styles_xml =
     Xml (tag ''styleSheet'' [attribute ''xmlns'' NS_MAIN]
       [tag ''fonts'' [attribute ''count'' (ustr ''1'')]
          [tag ''font'' []
             [tag ''sz'' [attribute ''val'' (ustr ''11'')] [],
              tag ''color'' [attribute ''theme'' (ustr ''1'')] [],
              tag ''name'' [attribute ''val'' (ustr ''Calibri'')] [],
              tag ''family'' [attribute ''val'' (ustr ''2'')] []]],
        tag ''fills'' [attribute ''count'' (ustr ''2'')]
          [tag ''fill'' [] [tag ''patternFill'' [attribute ''patternType'' (ustr ''none'')] []],
           tag ''fill'' [] [tag ''patternFill'' [attribute ''patternType'' (ustr ''gray125'')] []]],
        tag ''borders'' [attribute ''count'' (ustr ''1'')]
          [tag ''border'' []
             [tag ''left'' [] [], tag ''right'' [] [], tag ''top'' [] [], tag ''bottom'' [] [],
              tag ''diagonal'' [] []]],
        tag ''cellStyleXfs'' [attribute ''count'' (ustr ''1'')]
          [tag ''xf''
             [attribute ''numFmtId'' (ustr ''0''), attribute ''fontId'' (ustr ''0''),
              attribute ''fillId'' (ustr ''0''), attribute ''borderId'' (ustr ''0'')] []],
        tag ''cellXfs'' [attribute ''count'' (ustr ''1'')]
          [tag ''xf''
             [attribute ''numFmtId'' (ustr ''0''), attribute ''fontId'' (ustr ''0''),
              attribute ''fillId'' (ustr ''0''), attribute ''borderId'' (ustr ''0''),
              attribute ''xfId'' (ustr ''0'')] []],
        tag ''cellStyles'' [attribute ''count'' (ustr ''1'')]
          [tag ''cellStyle''
             [attribute ''name'' (ustr ''Normal''), attribute ''xfId'' (ustr ''0''),
              attribute ''builtinId'' (ustr ''0'')] []]])"

section \<open>Files\<close>

text \<open>
  An archive is its parts by name.  A file is a text file, given by the lines that
  iterating over it yields (each with its line terminator), or a zip archive, or neither.
  The world is the directory listings (the entry names of a directory, in the order the
  operating system lists them), the files by path, and a trace of the files opened so
  far, which is kept only to state which accesses a call has made.
\<close>

type_synonym archive = "pystr \<rightharpoonup> document"

datatype file_content = TextFile "pystr list" | ZipFile archive | OtherFile

datatype event = OpenText pystr | OpenZip pystr | WriteZip pystr

record world =
  listing :: "pystr \<Rightarrow> pystr list"
  files :: "pystr \<rightharpoonup> file_content"
  trace :: "event list"

text \<open>
  \<^verbatim>\<open>write_xlsx\<close>.  Creating the file at \<open>path\<close> is taken to succeed; the result is the
  exception raised, if any, and the world after the call.
\<close>

definition write_xlsx :: "pystr \<Rightarrow> SheetData list \<Rightarrow> world \<Rightarrow> (error + unit) \<times> world" where
  "write_xlsx path sheets w =
     (if sheets = [] then (Inl (ValueError (ustr ''Workbook must contain at least one sheet'')), w)
      else
        case for_each build_sheet_xml sheets of
          Inl e \<Rightarrow> (Inl e, w)
        | Inr sheet_xml_data \<Rightarrow>
            let workbook_xml = build_workbook_xml (map sheet_name sheets);
                content_types_xml = build_content_types_xml (length sheets);
                root_rels_xml = build_root_rels_xml;
                workbook_rels_xml = build_workbook_rels_xml (length sheets);
                styles_xml = build_styles_xml;
                zf = [ustr ''[Content_Types].xml'' \<mapsto> content_types_xml,
                      ustr ''_rels/.rels'' \<mapsto> root_rels_xml,
                      ustr ''xl/workbook.xml'' \<mapsto> workbook_xml,
                      ustr ''xl/_rels/workbook.xml.rels'' \<mapsto> workbook_rels_xml,
                      ustr ''xl/styles.xml'' \<mapsto> styles_xml];
                zf = fold (\<lambda>(index, data) zf.
                             zf(ustr ''xl/worksheets/sheet'' @ str_nat index @ ustr ''.xml'' \<mapsto> data))
                       (enumerate 1 sheet_xml_data) zf
            in (Inr (), w\<lparr>files := (files w)(path \<mapsto> ZipFile zf), trace := trace w @ [WriteZip path]\<rparr>))"

section \<open>The archive decoder (\<^verbatim>\<open>log_to_excel.py\<close>)\<close>

text \<open>
  \<^verbatim>\<open>str.isalpha\<close> and \<^verbatim>\<open>str.upper\<close> on a character, for ASCII.  Cell references written by
  this program and by spreadsheet applications are ASCII; letters beyond ASCII, which
  Python's methods also know, are not modelled.
\<close>

definition isalpha :: "nat \<Rightarrow> bool" where
  "isalpha c \<longleftrightarrow> (65 \<le> c \<and> c \<le> 90) \<or> (97 \<le> c \<and> c \<le> 122)"

definition upper :: "nat \<Rightarrow> nat" where
  "upper c = (if 97 \<le> c \<and> c \<le> 122 then c - 32 else c)"

text \<open>
  \<^verbatim>\<open>_column_index_from_ref\<close>.  Every character left by the filter is a letter, so after
  \<^verbatim>\<open>upper\<close> its code is at least that of \<^verbatim>\<open>A\<close> and \<open>ord(char) - ord("A") + 1\<close> is positive.
\<close>

definition column_index_from_ref :: "pystr \<Rightarrow> nat" where
  "column_index_from_ref cell_ref =
     (let letters = filter isalpha cell_ref
      in foldl (\<lambda>index char. index * 26 + (char - 65 + 1)) 0 (map upper letters))"

text \<open>
  \<^verbatim>\<open>int(s)\<close> for a string: optional white space, an optional sign, and decimal digits that
  single underscores may separate.  ASCII digits only: the other Unicode decimal digits
  that \<^verbatim>\<open>int\<close> accepts are not modelled.
\<close>

definition isdigit :: "nat \<Rightarrow> bool" where
  "isdigit c \<longleftrightarrow> 48 \<le> c \<and> c \<le> 57"

fun int_digits :: "pystr \<Rightarrow> nat \<Rightarrow> nat option" where
  "int_digits [] acc = Some acc"
| "int_digits [c] acc = (if isdigit c then Some (acc * 10 + (c - 48)) else None)"
| "int_digits (c # d # cs) acc =
     (if isdigit c then int_digits (d # cs) (acc * 10 + (c - 48))
      else if c = 95 \<and> isdigit d then int_digits cs (acc * 10 + (d - 48))
      else None)"

text \<open>The sign, the digit part, and the result or the \<^verbatim>\<open>ValueError\<close> for the string.\<close>

fun sign_split :: "pystr \<Rightarrow> bool \<times> pystr" where
  "sign_split [] = (False, [])"
| "sign_split (c # cs) =
     (if c = 45 then (True, cs) else if c = 43 then (False, cs) else (False, c # cs))"

fun digit_part :: "pystr \<Rightarrow> nat option" where
  "digit_part [] = None"
| "digit_part (d # ds) = (if isdigit d then int_digits ds (d - 48) else None)"

fun int_result :: "pystr \<Rightarrow> bool \<Rightarrow> nat option \<Rightarrow> error + int" where
  "int_result s negative None = Inl (ValueError s)"
| "int_result s negative (Some n) = Inr (if negative then - int n else int n)"

definition py_int :: "pystr \<Rightarrow> error + int" where
  "py_int s =
     (case sign_split (strip s) of
        (negative, body) \<Rightarrow> int_result s negative (digit_part body))"

text \<open>\<^verbatim>\<open>x or default\<close> for an optional string.\<close>

definition or_else :: "pystr option \<Rightarrow> pystr \<Rightarrow> pystr" where
  "or_else x d = (case x of None \<Rightarrow> d | Some s \<Rightarrow> if s = [] then d else s)"

text \<open>
  A dictionary that is iterated over: the association list of its items in insertion
  order.  Assigning to a key that is present keeps the key's position.
\<close>

fun dict_set :: "('k \<times> 'v) list \<Rightarrow> 'k \<Rightarrow> 'v \<Rightarrow> ('k \<times> 'v) list" where
  "dict_set [] k v = [(k, v)]"
| "dict_set ((k', v') # d) k v = (if k' = k then (k, v) # d else (k', v') # dict_set d k v)"

text \<open>\<^verbatim>\<open>xs[i] = v\<close>: a negative index counts from the end, an index outside the list raises.\<close>

definition list_setitem :: "'a list \<Rightarrow> int \<Rightarrow> 'a \<Rightarrow> error + 'a list" where
  "list_setitem xs i v =
     (if 0 \<le> i \<and> i < int (length xs) then Inr (xs[nat i := v])
      else if - int (length xs) \<le> i \<and> i < 0 then Inr (xs[nat (int (length xs) + i) := v])
      else Inl IndexError)"

text \<open>A loop that updates a state and stops at the first exception.\<close>

fun fold_err :: "('a \<Rightarrow> 's \<Rightarrow> error + 's) \<Rightarrow> 'a list \<Rightarrow> 's \<Rightarrow> error + 's" where
  "fold_err f [] s = Inr s"
| "fold_err f (x # xs) s = (case f x s of Inl e \<Rightarrow> Inl e | Inr s' \<Rightarrow> fold_err f xs s')"

text \<open>
  One iteration of the loop of \<^verbatim>\<open>_parse_sheet_rows\<close> over the cells of a row; the state is
  the dictionary \<open>cells\<close> and \<open>max_col\<close>.
\<close>

definition parse_cell ::
  "pystr list \<Rightarrow> element \<Rightarrow> (nat \<times> CellValue) list \<times> nat \<Rightarrow> error + (nat \<times> CellValue) list \<times> nat" where
  "parse_cell shared_strings cell st =
     (case st of (cells, max_col) \<Rightarrow>
      case get_attr cell (attr ''r'') of
        None \<Rightarrow> Inr (cells, max_col)
      | Some cell_ref \<Rightarrow>
          if \<not> truthy cell_ref then Inr (cells, max_col)
          else
            let col_index = column_index_from_ref cell_ref;
                data_type = get_attr cell (attr ''t'');
                formula_node = find_child cell (main_tag ''f'');
                formula = (case formula_node of None \<Rightarrow> None | Some node \<Rightarrow> elem_text node);
                value_node = find_child cell (main_tag ''v'');
                text = (
                  if data_type = Some (ustr ''s'') \<and> value_node \<noteq> None then
                    (case py_int (or_else (elem_text (the value_node)) (ustr ''0'')) of
                       Inl e \<Rightarrow> Inl e
                     | Inr idx \<Rightarrow>
                         Inr (if 0 \<le> idx \<and> idx < int (length shared_strings)
                              then shared_strings ! nat idx else []))
                  else if data_type = Some (ustr ''inlineStr'') then
                    (case find_desc cell (main_tag ''t'') of
                       None \<Rightarrow> Inr []
                     | Some t_node \<Rightarrow> Inr (or_else (elem_text t_node) []))
                  else if value_node \<noteq> None then
                    Inr (or_else (elem_text (the value_node)) [])
                  else Inr [])
            in case text of
                 Inl e \<Rightarrow> Inl e
               | Inr text \<Rightarrow>
                   Inr (dict_set cells col_index
                          \<lparr>cell_value = text, formula = formula, data_type = data_type\<rparr>,
                        max max_col col_index))"

definition parse_row :: "pystr list \<Rightarrow> element \<Rightarrow> error + CellValue list" where
  "parse_row shared_strings row =
     (case fold_err (parse_cell shared_strings) (findall row (main_tag ''c'')) ([], 0) of
        Inl e \<Rightarrow> Inl e
      | Inr (cells, max_col) \<Rightarrow>
          if max_col = 0 then Inr []
          else fold_err (\<lambda>(col_index, cell_value) row_values.
                           list_setitem row_values (int col_index - 1) cell_value)
                 cells (replicate max_col empty_cell))"

definition parse_sheet_rows :: "document \<Rightarrow> pystr list \<Rightarrow> error + CellValue list list" where
  "parse_sheet_rows xml_bytes shared_strings =
     (case fromstring xml_bytes of
        Inl e \<Rightarrow> Inl e
      | Inr root \<Rightarrow>
          for_each (parse_row shared_strings)
            (concat (map (\<lambda>sheet_data. findall sheet_data (main_tag ''row''))
                       (findall root (main_tag ''sheetData'')))))"

definition load_shared_strings :: "archive \<Rightarrow> error + pystr list" where
  "load_shared_strings zf =
     (case zf (ustr ''xl/sharedStrings.xml'') of
        None \<Rightarrow> Inr []
      | Some xml_bytes \<Rightarrow>
          (case fromstring xml_bytes of
             Inl e \<Rightarrow> Inl e
           | Inr root \<Rightarrow>
               Inr (map (\<lambda>si. concat (map (\<lambda>t. or_else (elem_text t) []) (findall_desc si (main_tag ''t''))))
                      (findall root (main_tag ''si'')))))"

text \<open>
  \<^verbatim>\<open>zf.read(name)\<close> raises \<^verbatim>\<open>KeyError\<close> with a message that names the missing item, and
  \<^verbatim>\<open>el.attrib[key]\<close> raises \<^verbatim>\<open>KeyError(key)\<close>; \<open>KeyError\<close> carries that name.
\<close>

definition zf_read :: "archive \<Rightarrow> pystr \<Rightarrow> error + document" where
  "zf_read zf name = (case zf name of None \<Rightarrow> Inl (KeyError name) | Some xml_bytes \<Rightarrow> Inr xml_bytes)"

definition attrib_item :: "element \<Rightarrow> qname \<Rightarrow> error + pystr" where
  "attrib_item el key =
     (case get_attr el key of
        None \<Rightarrow> Inl (KeyError (if fst key = [] then snd key else ustr ''{'' @ fst key @ ustr ''}'' @ snd key))
      | Some v \<Rightarrow> Inr v)"

text \<open>The dictionary comprehension that builds \<^verbatim>\<open>rel_map\<close>, one relationship at a time.\<close>

definition rel_map_step :: "element \<Rightarrow> (pystr \<rightharpoonup> pystr) \<Rightarrow> error + (pystr \<rightharpoonup> pystr)" where
  "rel_map_step rel rel_map =
     (case attrib_item rel (attr ''Id'') of
        Inl e \<Rightarrow> Inl e
      | Inr rid \<Rightarrow>
          (case attrib_item rel (attr ''Target'') of
             Inl e \<Rightarrow> Inl e
           | Inr target \<Rightarrow> Inr (rel_map(rid \<mapsto> target))))"

text \<open>
  One iteration of the loop over the sheets of the workbook part: the sheet decoded, or
  nothing where the relationship map has no target for the sheet (\<^verbatim>\<open>continue\<close>).
\<close>

definition load_sheet ::
  "archive \<Rightarrow> pystr list \<Rightarrow> (pystr \<rightharpoonup> pystr) \<Rightarrow> element \<Rightarrow> error + SheetData list" where
  "load_sheet zf shared_strings rel_map sheet =
     (case attrib_item sheet (NS_R, ustr ''id'') of
        Inl e \<Rightarrow> Inl e
      | Inr rid \<Rightarrow>
     (case attrib_item sheet (attr ''name'') of
        Inl e \<Rightarrow> Inl e
      | Inr name \<Rightarrow>
          let target = rel_map rid in
          if \<not> truthy_opt target then Inr []
          else
            (case zf_read zf (ustr ''xl/'' @ the target) of
               Inl e \<Rightarrow> Inl e
             | Inr xml_bytes \<Rightarrow>
                 (case parse_sheet_rows xml_bytes shared_strings of
                    Inl e \<Rightarrow> Inl e
                  | Inr rows \<Rightarrow> Inr [\<lparr>sheet_name = name, sheet_rows = rows\<rparr>]))))"

definition load_archive :: "archive \<Rightarrow> error + SheetData list" where
  "load_archive zf =
     (case load_shared_strings zf of Inl e \<Rightarrow> Inl e | Inr shared_strings \<Rightarrow>
      case zf_read zf (ustr ''xl/workbook.xml'') of Inl e \<Rightarrow> Inl e | Inr wb_bytes \<Rightarrow>
      case fromstring wb_bytes of Inl e \<Rightarrow> Inl e | Inr wb_root \<Rightarrow>
      case zf_read zf (ustr ''xl/_rels/workbook.xml.rels'') of Inl e \<Rightarrow> Inl e | Inr rel_bytes \<Rightarrow>
      case fromstring rel_bytes of Inl e \<Rightarrow> Inl e | Inr rel_root \<Rightarrow>
      case fold_err rel_map_step (findall rel_root (NS_PKG_REL, ustr ''Relationship'')) Map.empty of
        Inl e \<Rightarrow> Inl e | Inr rel_map \<Rightarrow>
      case for_each (load_sheet zf shared_strings rel_map)
             (concat (map (\<lambda>sheets. findall sheets (main_tag ''sheet''))
                        (findall wb_root (main_tag ''sheets'')))) of
        Inl e \<Rightarrow> Inl e
      | Inr sheets \<Rightarrow> Inr (concat sheets))"

text \<open>
  \<^verbatim>\<open>_load_existing_sheets\<close>: \<^verbatim>\<open>zipfile.ZipFile(output_path)\<close> opens the file, which must
  exist and be a zip archive; \<open>load_archive\<close> is the body of the \<^verbatim>\<open>with\<close> block.
\<close>

definition load_existing_sheets :: "pystr \<Rightarrow> world \<Rightarrow> (error + SheetData list) \<times> world" where
  "load_existing_sheets output_path w =
     (let w' = w\<lparr>trace := trace w @ [OpenZip output_path]\<rparr> in
      case files w output_path of
        None \<Rightarrow> (Inl (FileNotFoundError output_path), w')
      | Some (ZipFile zf) \<Rightarrow> (load_archive zf, w')
      | Some other \<Rightarrow> (Inl BadZipFile, w'))"

section \<open>Properties of the archive codec\<close>

subsection \<open>Numerals and column letters\<close>




lemma str_nat_small: "n < 10 \<Longrightarrow> str_nat n = [48 + n]"
  by (subst str_nat.simps) simp

lemma str_nat_large: "\<not> n < 10 \<Longrightarrow> str_nat n = str_nat (n div 10) @ [48 + n mod 10]"
  by (subst str_nat.simps) simp

lemma str_nat_digits: "d \<in> set (str_nat n) \<Longrightarrow> 48 \<le> d \<and> d \<le> 57"
proof (induction n arbitrary: d rule: str_nat.induct)
  case (1 n)
  show ?case
  proof (cases "n < 10")
    case True
    with "1.prems" show ?thesis by (simp add: str_nat_small)
  next
    case False
    with "1.prems" have "d \<in> set (str_nat (n div 10)) \<or> d = 48 + n mod 10"
      by (auto simp: str_nat_large)
    with "1.IH"[OF False] show ?thesis by auto
  qed
qed



definition col_letters :: "nat \<Rightarrow> pystr" where
  "col_letters index = rev (column_letter_loop index [])"



lemma column_letter_ok: "1 \<le> index \<Longrightarrow> column_letter index = Inr (col_letters index)"
  by (simp add: column_letter_def col_letters_def)



subsection \<open>Reading back what the writer wrote\<close>

































subsection \<open>The markup of a sheet and its element tree\<close>








lemma xml_char_ascii: "xml_char 38" "xml_char 59" "xml_char 35" "xml_char 49" "xml_char 48"
  by (simp_all add: xml_char_def)




















declare parse_element.simps [simp del]































subsection \<open>The writer does not fail on a non-empty workbook\<close>

lemma for_each_total: "\<forall>x\<in>set xs. \<exists>y. f x = Inr y \<Longrightarrow> \<exists>ys. for_each f xs = Inr ys"
proof (induction xs)
  case Nil
  then show ?case by simp
next
  case (Cons x xs)
  then obtain y ys where "f x = Inr y" "for_each f xs = Inr ys" by auto
  then show ?case by simp
qed

lemma cell_xml_total: "1 \<le> c \<Longrightarrow> \<exists>els. cell_xml r (c, cell) = Inr els"
  by (simp add: cell_xml_def column_letter_ok Let_def)

lemma row_xml_total: "\<exists>el. row_xml max_cols (row_index, row) = Inr el"
proof -
  have "\<forall>x\<in>set (enumerate 1 row). \<exists>y. cell_xml row_index x = Inr y"
    using cell_xml_total by (auto simp: in_set_enumerate_eq)
  from for_each_total[OF this] show ?thesis
    by (auto simp: row_xml_def Let_def)
qed

lemma build_sheet_xml_total: "\<exists>xml_bytes. build_sheet_xml sheet = Inr xml_bytes"
proof -
  have "\<exists>ys. for_each (row_xml m) (enumerate 1 (sheet_rows sheet)) = Inr ys" for m
    by (rule for_each_total) (use row_xml_total in auto)
  then show ?thesis
    unfolding build_sheet_xml_def Let_def by (metis (no_types, lifting) sum.simps(6))
qed

text \<open>
  C9.  Called with an empty sheet list, \<^verbatim>\<open>write_xlsx\<close> raises \<^verbatim>\<open>ValueError\<close> and writes
  nothing: the world is unchanged.  Called with a non-empty sheet list it does not raise:
  it returns normally, and the file at the path is then a zip archive.
\<close>

theorem write_xlsx_empty_sheet_list:
  "write_xlsx path [] w = (Inl (ValueError (ustr ''Workbook must contain at least one sheet'')), w)
   \<and> (sheets \<noteq> [] \<longrightarrow>
        (\<exists>zf. write_xlsx path sheets w
               = (Inr (), w\<lparr>files := (files w)(path \<mapsto> ZipFile zf), trace := trace w @ [WriteZip path]\<rparr>)))"
proof -
  have "\<exists>ys. for_each build_sheet_xml sheets = Inr ys"
    by (rule for_each_total) (use build_sheet_xml_total in auto)
  then obtain ys where "for_each build_sheet_xml sheets = Inr ys" ..
  then show ?thesis
    by (auto simp: write_xlsx_def Let_def)
qed

theorem write_xlsx_empty_sheet_list_witness:
  "[\<lparr>sheet_name = ustr ''S'', sheet_rows = [[text_cell (ustr ''a'')]]\<rparr>] \<noteq> []
   \<and> fst (write_xlsx (ustr ''out.xlsx'')
            [\<lparr>sheet_name = ustr ''S'', sheet_rows = [[text_cell (ustr ''a'')]]\<rparr>]
            \<lparr>listing = (\<lambda>d. []), files = Map.empty, trace = []\<rparr>) = Inr ()"
  using write_xlsx_empty_sheet_list[of "ustr ''out.xlsx''" "\<lparr>listing = (\<lambda>d. []), files = Map.empty, trace = []\<rparr>"
      "[\<lparr>sheet_name = ustr ''S'', sheet_rows = [[text_cell (ustr ''a'')]]\<rparr>]"]
  by auto

section \<open>Workbook generation (\<^verbatim>\<open>log_to_excel.py\<close>)\<close>

subsection \<open>Discovery of the log pairs\<close>

text \<open>
  \<^verbatim>\<open>Path.stem\<close>: the name without its last suffix; a name whose only dot is its first or its
  last character has no suffix.  \<open>rfind c s i\<close> is the index of the last \<open>c\<close> in \<open>s\<close>, counted
  from \<open>i\<close>.
\<close>

fun rfind :: "nat \<Rightarrow> pystr \<Rightarrow> nat \<Rightarrow> nat option" where
  "rfind c [] i = None"
| "rfind c (x # xs) i =
     (case rfind c xs (i + 1) of Some j \<Rightarrow> Some j | None \<Rightarrow> if x = c then Some i else None)"

definition path_stem :: "pystr \<Rightarrow> pystr" where
  "path_stem name =
     (case rfind 46 name 0 of
        None \<Rightarrow> name
      | Some i \<Rightarrow> if 0 < i \<and> i < length name - 1 then take i name else name)"

text \<open>\<^verbatim>\<open>s.split(sep, 1)[1]\<close> where \<^verbatim>\<open>sep in s\<close>: what follows the first occurrence of \<open>sep\<close>.\<close>

fun after_first :: "pystr \<Rightarrow> pystr \<Rightarrow> pystr option" where
  "after_first sep [] = (if sep = [] then Some [] else None)"
| "after_first sep (x # xs) =
     (if take (length sep) (x # xs) = sep then Some (drop (length sep) (x # xs))
      else after_first sep xs)"

definition extract_host_name :: "pystr \<Rightarrow> pystr" where
  "extract_host_name name =
     (let stem = path_stem name
      in case after_first (ustr ''diff_'') stem of None \<Rightarrow> stem | Some rest \<Rightarrow> rest)"

text \<open>\<^verbatim>\<open>str.lower\<close> on a character, for ASCII; no other character has the lower case \<^verbatim>\<open>s\<close> or \<^verbatim>\<open>p\<close>.\<close>

definition lower :: "nat \<Rightarrow> nat" where
  "lower c = (if 65 \<le> c \<and> c \<le> 90 then c + 32 else c)"

text \<open>
  \<^verbatim>\<open>input_dir.glob("*.log")\<close> yields the entries of the directory whose name ends in
  \<^verbatim>\<open>.log\<close>, in the order of the listing; the path of an entry is the directory joined with
  the name.
\<close>

definition endswith :: "pystr \<Rightarrow> pystr \<Rightarrow> bool" where
  "endswith s suffix \<longleftrightarrow> length suffix \<le> length s \<and> drop (length s - length suffix) s = suffix"

definition joinpath :: "pystr \<Rightarrow> pystr \<Rightarrow> pystr" where
  "joinpath dir name = dir @ ustr ''/'' @ name"

definition glob_log :: "world \<Rightarrow> pystr \<Rightarrow> pystr list" where
  "glob_log w input_dir = filter (\<lambda>name. endswith name (ustr ''.log'')) (listing w input_dir)"

text \<open>
  One iteration of the loop of \<^verbatim>\<open>_discover_pairs\<close> over the entries; the state is the two
  dictionaries \<open>stg_files\<close> and \<open>prd_files\<close> from base name to host name and path.
\<close>

type_synonym host_files = "(pystr \<times> pystr \<times> pystr) list"

definition discover_step :: "pystr \<Rightarrow> pystr \<Rightarrow> host_files \<times> host_files \<Rightarrow> host_files \<times> host_files" where
  "discover_step input_dir name st =
     (case st of (stg_files, prd_files) \<Rightarrow>
      let host = extract_host_name name in
      if \<not> truthy host then (stg_files, prd_files)
      else
        let suffix = lower (last host);
            base = butlast host
        in if suffix = 115 then (dict_set stg_files base (host, joinpath input_dir name), prd_files)
           else if suffix = 112 then (stg_files, dict_set prd_files base (host, joinpath input_dir name))
           else (stg_files, prd_files))"

text \<open>
  \<^verbatim>\<open>sorted(set(stg_files) & set(prd_files))\<close>: the common keys in the order of strings.
  Every such key is in both dictionaries, so the two lookups of \<open>discover_pairs\<close> succeed.
\<close>

definition common_bases :: "host_files \<Rightarrow> host_files \<Rightarrow> pystr list" where
  "common_bases stg_files prd_files =
     sort (filter (\<lambda>base. map_of prd_files base \<noteq> None) (map fst stg_files))"

definition discover_pairs :: "world \<Rightarrow> pystr \<Rightarrow> LogPair list" where
  "discover_pairs w input_dir =
     (case fold (discover_step input_dir) (glob_log w input_dir) ([], []) of
        (stg_files, prd_files) \<Rightarrow>
          map (\<lambda>base.
                 case the (map_of stg_files base) of (stg_host', stg_path') \<Rightarrow>
                 case the (map_of prd_files base) of (prd_host', prd_path') \<Rightarrow>
                   \<lparr>base_name = base, stg_host = stg_host', prd_host = prd_host',
                    stg_path = stg_path', prd_path = prd_path'\<rparr>)
            (common_bases stg_files prd_files))"

subsection \<open>Reading the logs and building the rows\<close>

text \<open>\<^verbatim>\<open>line.rstrip("\r\n")\<close>: the line without the carriage returns and line feeds at its end.\<close>

fun rstrip_crlf :: "pystr \<Rightarrow> pystr" where
  "rstrip_crlf [] = []"
| "rstrip_crlf (c # cs) =
     (case rstrip_crlf cs of
        [] \<Rightarrow> if c = 13 \<or> c = 10 then [] else [c]
      | r # rs \<Rightarrow> c # r # rs)"

text \<open>
  \<^verbatim>\<open>_read_log_lines\<close>.  A path that names no file raises \<^verbatim>\<open>FileNotFoundError\<close>; a file that
  is not text raises \<^verbatim>\<open>UnicodeDecodeError\<close>.
\<close>

definition read_log_lines :: "pystr \<Rightarrow> world \<Rightarrow> (error + pystr list) \<times> world" where
  "read_log_lines path w =
     (let w' = w\<lparr>trace := trace w @ [OpenText path]\<rparr> in
      case files w path of
        None \<Rightarrow> (Inl (FileNotFoundError path), w')
      | Some (TextFile ls) \<Rightarrow> (Inr (map rstrip_crlf ls), w')
      | Some other \<Rightarrow> (Inl UnicodeDecodeError, w'))"

definition build_rows_for_pair :: "LogPair \<Rightarrow> world \<Rightarrow> (error + CellValue list list) \<times> world" where
  "build_rows_for_pair pair w =
     (case read_log_lines (stg_path pair) w of
        (Inl e, w1) \<Rightarrow> (Inl e, w1)
      | (Inr stg_lines, w1) \<Rightarrow>
     (case read_log_lines (prd_path pair) w1 of
        (Inl e, w2) \<Rightarrow> (Inl e, w2)
      | (Inr prd_lines, w2) \<Rightarrow>
     (case align_logs stg_lines prd_lines of
        Inl e \<Rightarrow> (Inl e, w2)
      | Inr aligned \<Rightarrow>
          let rows = build_header_rows pair;
              current_row = length rows + 1
          in (Inr (rows_loop aligned rows current_row), w2))))"

subsection \<open>Unique sheet names\<close>

text \<open>\<^verbatim>\<open>s[:n]\<close> for an integer \<open>n\<close>: a negative \<open>n\<close> counts from the end of the string.\<close>

definition slice_to :: "'a list \<Rightarrow> int \<Rightarrow> 'a list" where
  "slice_to s n = (if 0 \<le> n then take (nat n) s else take (length s - nat (- n)) s)"

text \<open>The candidate that the loop of \<^verbatim>\<open>_make_unique_sheet_name\<close> tries for a counter.\<close>

definition sheet_name_candidate :: "pystr \<Rightarrow> nat \<Rightarrow> pystr" where
  "sheet_name_candidate base_name' counter =
     (let suffix = ustr ''.v'' @ str_nat counter;
          max_len = 31 - int (length suffix)
      in slice_to base_name' max_len @ suffix)"

text \<open>
  The \<^verbatim>\<open>while True\<close> loop.  It returns the name and the set with the name added; \<open>None\<close>
  stands for a loop that does not end.
\<close>

partial_function (option) unique_name_loop :: "pystr \<Rightarrow> pystr set \<Rightarrow> nat \<Rightarrow> (pystr \<times> pystr set) option" where
  "unique_name_loop base_name' used_names counter =
     (let candidate = sheet_name_candidate base_name' counter
      in if candidate \<notin> used_names then Some (candidate, insert candidate used_names)
         else unique_name_loop base_name' used_names (counter + 1))"

declare unique_name_loop.simps [code]

definition make_unique_sheet_name :: "pystr \<Rightarrow> pystr set \<Rightarrow> (pystr \<times> pystr set) option" where
  "make_unique_sheet_name base_name' used_names =
     (if base_name' \<notin> used_names then Some (base_name', insert base_name' used_names)
      else unique_name_loop base_name' used_names 2)"

subsection \<open>\<^verbatim>\<open>generate_workbook\<close>\<close>

text \<open>The loop over the pairs; the state is \<open>used_names\<close>, \<open>new_sheets\<close> and the world.\<close>

fun new_sheets_loop ::
  "LogPair list \<Rightarrow> pystr set \<Rightarrow> SheetData list \<Rightarrow> world \<Rightarrow> ((error + SheetData list) \<times> world) option" where
  "new_sheets_loop [] used_names new_sheets w = Some (Inr new_sheets, w)"
| "new_sheets_loop (pair # pairs) used_names new_sheets w =
     (case build_rows_for_pair pair w of
        (Inl e, w') \<Rightarrow> Some (Inl e, w')
      | (Inr rows, w') \<Rightarrow>
          (case make_unique_sheet_name (take 31 (base_name pair)) used_names of
             None \<Rightarrow> None
           | Some (name, used_names') \<Rightarrow>
               new_sheets_loop pairs used_names'
                 (new_sheets @ [\<lparr>sheet_name = name, sheet_rows = rows\<rparr>]) w'))"

definition generate_workbook :: "pystr \<Rightarrow> pystr \<Rightarrow> world \<Rightarrow> ((error + unit) \<times> world) option" where
  "generate_workbook input_dir output_path w =
     (let pairs = discover_pairs w input_dir in
      if pairs = [] then
        Some (Inl (FileNotFoundError
                (ustr ''No STG/PRD log pairs were discovered under '' @ [39] @ input_dir @ [39] @ ustr ''.'')),
              w)
      else
        case (if files w output_path \<noteq> None then load_existing_sheets output_path w
              else (Inr [], w)) of
          (Inl e, w1) \<Rightarrow> Some (Inl e, w1)
        | (Inr existing_sheets, w1) \<Rightarrow>
            (case new_sheets_loop pairs (set (map sheet_name existing_sheets)) [] w1 of
               None \<Rightarrow> None
             | Some (Inl e, w2) \<Rightarrow> Some (Inl e, w2)
             | Some (Inr new_sheets, w2) \<Rightarrow>
                 Some (write_xlsx output_path (existing_sheets @ new_sheets) w2)))"

section \<open>Properties of the report assembler\<close>

subsection \<open>Unique sheet names\<close>

lemma str_nat_value: "foldl (\<lambda>a d. a * 10 + (d - 48)) 0 (str_nat n) = n"
proof (induction n rule: str_nat.induct)
  case (1 n)
  show ?case
  proof (cases "n < 10")
    case True
    then show ?thesis by (simp add: str_nat_small)
  next
    case False
    with "1.IH" show ?thesis by (simp add: str_nat_large)
  qed
qed

lemma str_nat_inj: "str_nat n = str_nat m \<Longrightarrow> n = m"
  by (metis str_nat_value)

lemma str_nat_length: "n < 10 ^ k \<Longrightarrow> 1 \<le> k \<Longrightarrow> length (str_nat n) \<le> k"
proof (induction n arbitrary: k rule: str_nat.induct)
  case (1 n)
  show ?case
  proof (cases "n < 10")
    case True
    with "1.prems" show ?thesis by (simp add: str_nat_small)
  next
    case False
    with "1.prems" have k: "2 \<le> k"
      by (cases k; cases "k - 1") auto
    then obtain k' where k': "k = Suc k'" "1 \<le> k'" by (cases k) auto
    with "1.prems" have "n div 10 < 10 ^ k'"
      by (simp add: less_mult_imp_div_less mult.commute)
    from "1.IH"[OF False this k'(2)] k' False show ?thesis
      by (simp add: str_nat_large)
  qed
qed

lemma candidate_digits:
  "takeWhile isdigit (rev (sheet_name_candidate base counter)) = rev (str_nat counter)"
proof -
  define rest where
    "rest = rev (slice_to base (31 - int (length (ustr ''.v'' @ str_nat counter))))"
  have d: "\<And>c. c \<in> set (rev (str_nat counter)) \<Longrightarrow> isdigit c"
    using str_nat_digits by (auto simp: isdigit_def)
  have "rev (sheet_name_candidate base counter) = rev (str_nat counter) @ (118 # 46 # rest)"
    by (simp add: sheet_name_candidate_def Let_def ustr_def rest_def)
  moreover have "takeWhile isdigit (rev (str_nat counter) @ (118 # 46 # rest))
      = rev (str_nat counter) @ takeWhile isdigit (118 # 46 # rest)"
    by (rule takeWhile_append2) (rule d)
  moreover have "takeWhile isdigit (118 # 46 # rest) = []"
    by (simp add: isdigit_def)
  ultimately show ?thesis by simp
qed

lemma candidate_inj: "sheet_name_candidate base n = sheet_name_candidate base m \<Longrightarrow> n = m"
proof -
  assume "sheet_name_candidate base n = sheet_name_candidate base m"
  then have "rev (str_nat n) = rev (str_nat m)"
    using candidate_digits[of base n] candidate_digits[of base m] by simp
  then show "n = m" using str_nat_inj by simp
qed

lemma unique_name_loop_finds:
  assumes "\<forall>m. k \<le> m \<and> m < n \<longrightarrow> sheet_name_candidate base m \<in> used"
    "sheet_name_candidate base n \<notin> used" "k \<le> n"
  shows "unique_name_loop base used k
       = Some (sheet_name_candidate base n, insert (sheet_name_candidate base n) used)"
  using assms
proof (induction "n - k" arbitrary: k)
  case 0
  then have "k = n" by simp
  with "0.prems"(2) show ?case by (subst unique_name_loop.simps) (simp add: Let_def)
next
  case (Suc d)
  then have lt: "k < n" by simp
  with Suc.prems(1) have "sheet_name_candidate base k \<in> used" by simp
  then have "unique_name_loop base used k = unique_name_loop base used (k + 1)"
    by (subst unique_name_loop.simps) (simp add: Let_def)
  moreover have "unique_name_loop base used (k + 1)
       = Some (sheet_name_candidate base n, insert (sheet_name_candidate base n) used)"
    by (rule Suc.hyps(1)) (use Suc lt in auto)
  ultimately show ?case by simp
qed

lemma candidate_exists:
  assumes "finite used"
  shows "\<exists>n\<ge>2. sheet_name_candidate base n \<notin> used"
proof (rule ccontr)
  assume "\<not> (\<exists>n\<ge>2. sheet_name_candidate base n \<notin> used)"
  then have "sheet_name_candidate base ` {2..} \<subseteq> used" by auto
  with assms have "finite (sheet_name_candidate base ` {2..})" by (rule rev_finite_subset)
  moreover have "inj_on (sheet_name_candidate base) {2..}"
    by (auto simp: inj_on_def dest: candidate_inj)
  ultimately have "finite ({2..} :: nat set)" by (simp add: finite_image_iff)
  then show False by (simp add: infinite_Ici)
qed

lemma candidate_length:
  assumes "n < 10 ^ 29"
  shows "length (sheet_name_candidate base n) \<le> 31"
proof -
  from str_nat_length[OF assms] have "length (str_nat n) \<le> 29" by simp
  then show ?thesis
    by (simp add: sheet_name_candidate_def slice_to_def Let_def ustr_def)
qed


text \<open>
  C4.  For every base name and every finite set of used names, \<^verbatim>\<open>_make_unique_sheet_name\<close>
  terminates.  The name it returns is not in the set, and the set it leaves is the given
  set with that name added.  The name is the base itself when the base is not in the set;
  otherwise it is the first candidate, for the counters \<open>2, 3, \<dots>\<close>, that is not in the set,
  the candidate of a counter being the base cut to \<open>31 - len(suffix)\<close> characters followed
  by the suffix \<^verbatim>\<open>.v\<close> and the counter.  The name has at most 31 characters when the base
  has, also after any number of collisions on a base of 31 characters: the counter that is
  reached is at most the number of used names plus two and has at most 29 digits for every
  set of fewer than \<open>10\<^sup>2\<^sup>9 - 2\<close> names, a bound far above the \<open>2\<^sup>6\<^sup>3\<close> elements that a set
  of the interpreter can hold.
\<close>

theorem make_unique_sheet_name_result:
  assumes "finite used_names"
  shows "\<exists>name. make_unique_sheet_name base used_names = Some (name, insert name used_names)
           \<and> name \<notin> used_names
           \<and> (base \<notin> used_names \<longrightarrow> name = base)
           \<and> (base \<in> used_names \<longrightarrow>
                (\<exists>n\<ge>2. name = sheet_name_candidate base n
                      \<and> (\<forall>m. 2 \<le> m \<and> m < n \<longrightarrow> sheet_name_candidate base m \<in> used_names)))
           \<and> (length base \<le> 31 \<and> card used_names + 2 < 10 ^ 29 \<longrightarrow> length name \<le> 31)"
proof (cases "base \<in> used_names")
  case False
  then show ?thesis by (simp add: make_unique_sheet_name_def)
next
  case True
  define n where "n = (LEAST n. 2 \<le> n \<and> sheet_name_candidate base n \<notin> used_names)"
  from candidate_exists[OF assms, of base]
  have ex: "\<exists>n. 2 \<le> n \<and> sheet_name_candidate base n \<notin> used_names" by blast
  from LeastI_ex[OF ex] have n: "2 \<le> n" "sheet_name_candidate base n \<notin> used_names"
    by (simp_all add: n_def)
  have below: "sheet_name_candidate base m \<in> used_names" if "2 \<le> m" "m < n" for m
    using not_less_Least[of m "\<lambda>n. 2 \<le> n \<and> sheet_name_candidate base n \<notin> used_names"] that
    by (auto simp: n_def)
  have loop: "unique_name_loop base used_names 2
      = Some (sheet_name_candidate base n, insert (sheet_name_candidate base n) used_names)"
    by (rule unique_name_loop_finds) (use n below in auto)
  have len: "length (sheet_name_candidate base n) \<le> 31" if c: "card used_names + 2 < 10 ^ 29"
  proof -
    have "sheet_name_candidate base ` {2..<n} \<subseteq> used_names" using below by auto
    then have "card (sheet_name_candidate base ` {2..<n}) \<le> card used_names"
      using assms by (simp add: card_mono)
    moreover have "inj_on (sheet_name_candidate base) {2..<n}"
      by (auto simp: inj_on_def dest: candidate_inj)
    ultimately have "n - 2 \<le> card used_names" by (simp add: card_image)
    with c have "n < 10 ^ 29" by linarith
    then show ?thesis by (rule candidate_length)
  qed
  show ?thesis
    using True loop n below len
    by (intro exI[of _ "sheet_name_candidate base n"]) (auto simp: make_unique_sheet_name_def)
qed

theorem make_unique_sheet_name_result_witness:
  "finite {ustr ''web'', ustr ''web.v2''}
   \<and> make_unique_sheet_name (ustr ''web'') {ustr ''web'', ustr ''web.v2''}
       = Some (ustr ''web.v3'', insert (ustr ''web.v3'') {ustr ''web'', ustr ''web.v2''})"
proof -
  have c2: "sheet_name_candidate (ustr ''web'') 2 = ustr ''web.v2''"
    and c3: "sheet_name_candidate (ustr ''web'') 3 = ustr ''web.v3''"
    by (simp_all add: sheet_name_candidate_def slice_to_def str_nat_small ustr_def)
  from make_unique_sheet_name_result[of "{ustr ''web'', ustr ''web.v2''}" "ustr ''web''"]
  obtain name n where r: "make_unique_sheet_name (ustr ''web'') {ustr ''web'', ustr ''web.v2''}
       = Some (name, insert name {ustr ''web'', ustr ''web.v2''})"
    "name \<notin> {ustr ''web'', ustr ''web.v2''}" "2 \<le> n" "name = sheet_name_candidate (ustr ''web'') n"
    "\<forall>m. 2 \<le> m \<and> m < n \<longrightarrow> sheet_name_candidate (ustr ''web'') m \<in> {ustr ''web'', ustr ''web.v2''}"
    by auto
  have "n \<noteq> 2" using r(2,4) c2 by auto
  moreover have "n \<le> 3"
  proof (rule ccontr)
    assume "\<not> n \<le> 3"
    with r(5) have "sheet_name_candidate (ustr ''web'') 3 \<in> {ustr ''web'', ustr ''web.v2''}" by simp
    then show False unfolding c3 by (simp add: ustr_def)
  qed
  ultimately have "n = 3" using r(3) by simp
  with r(1,4) c3 show ?thesis by simp
qed


subsection \<open>No log pairs\<close>

text \<open>
  C8.  When pair discovery finds no matched identifiers in the input directory,
  \<^verbatim>\<open>generate_workbook\<close> raises \<^verbatim>\<open>FileNotFoundError\<close> and leaves the world as it was: no file
  has been opened or written (the trace is unchanged), and the files, among them an
  archive that may exist at the output path, are unchanged.
\<close>

theorem generate_workbook_no_pairs:
  assumes "discover_pairs w input_dir = []"
  shows "generate_workbook input_dir output_path w
       = Some (Inl (FileNotFoundError
                 (ustr ''No STG/PRD log pairs were discovered under '' @ [39] @ input_dir @ [39] @ ustr ''.'')),
               w)"
  using assms by (simp add: generate_workbook_def)

theorem generate_workbook_no_pairs_witness:
  "discover_pairs
     \<lparr>listing = (\<lambda>d. [ustr ''webs.log'', ustr ''notes.txt'']),
      files = [ustr ''out.xlsx'' \<mapsto> ZipFile Map.empty], trace = []\<rparr> (ustr ''ref'') = []
   \<and> generate_workbook (ustr ''ref'') (ustr ''out.xlsx'')
       \<lparr>listing = (\<lambda>d. [ustr ''webs.log'', ustr ''notes.txt'']),
        files = [ustr ''out.xlsx'' \<mapsto> ZipFile Map.empty], trace = []\<rparr>
     = Some (Inl (FileNotFoundError
                 (ustr ''No STG/PRD log pairs were discovered under '' @ [39] @ ustr ''ref'' @ [39] @ ustr ''.'')),
             \<lparr>listing = (\<lambda>d. [ustr ''webs.log'', ustr ''notes.txt'']),
              files = [ustr ''out.xlsx'' \<mapsto> ZipFile Map.empty], trace = []\<rparr>)"
proof -
  have d: "discover_pairs
     \<lparr>listing = (\<lambda>d. [ustr ''webs.log'', ustr ''notes.txt'']),
      files = [ustr ''out.xlsx'' \<mapsto> ZipFile Map.empty], trace = []\<rparr> (ustr ''ref'') = []"
    by code_simp
  from generate_workbook_no_pairs[OF d, of "ustr ''out.xlsx''"] d show ?thesis by simp
qed

subsection \<open>Archives with a missing part\<close>









end
